theory Spec2Isabelle
  imports Main "HOL-Library.Word"
begin

section \<open>DiskWiper: the overwrite rules, the block filler and the wipe session\<close>

text \<open>
  A shallow embedding of \<^verbatim>\<open>DiskWiper.cpp\<close>. Bytes (\<^verbatim>\<open>char\<close>) are 8-bit words, every
  \<^verbatim>\<open>unsigned int\<close> is a 32-bit word. Arrays are lists; a load or a store outside an array
  is undefined behaviour in C++ and is a \<open>fault\<close> value here, which stops the computation.
\<close>

type_synonym byte = "8 word"
type_synonym uint = "32 word"

datatype fault = NullPointer | LoadOutOfRange nat | StoreOutOfRange nat

subsection \<open>Overwrite rules and the policy tables\<close>

text \<open>
  \<^verbatim>\<open>struct OverWriteRule_s { const char *data; unsigned int datalen; unsigned int random;
  unsigned int _reserved; }\<close>. The pointer \<^verbatim>\<open>data\<close> is \<open>None\<close> when it is the null pointer
  and otherwise the array it points to.
\<close>

record OverWriteRule =
  data :: "byte list option"
  datalen :: uint
  random :: uint
  reserved :: uint

text \<open>The brace initialiser \<^verbatim>\<open>{data, datalen, random, _reserved}\<close>.\<close>

definition OWR :: "byte list option \<Rightarrow> uint \<Rightarrow> uint \<Rightarrow> uint \<Rightarrow> OverWriteRule" where
  "OWR d l r z = \<lparr> data = d, datalen = l, random = r, reserved = z \<rparr>"

text \<open>
  A string literal is an array of its characters followed by the terminating NUL:
  \<^verbatim>\<open>"\x92\x49\x24"\<close> is a \<^verbatim>\<open>const char[4]\<close>.
\<close>

definition lit :: "byte list \<Rightarrow> byte list option" where
  "lit cs = Some (cs @ [0])"

definition r_Gutmann :: "OverWriteRule list" where
  "r_Gutmann =
   [ OWR None 0 1 0,
     OWR None 0 1 0,
     OWR None 0 1 0,
     OWR None 0 1 0,
     OWR (lit [0x55]) 1 0 0,
     OWR (lit [0xAA]) 1 0 0,
     OWR (lit [0x92, 0x49, 0x24]) 3 0 0,
     OWR (lit [0x49, 0x24, 0x92]) 3 0 0,
     OWR (lit [0x24, 0x92, 0x49]) 3 0 0,
     OWR (lit [0x00]) 1 0 0,
     OWR (lit [0x11]) 1 0 0,
     OWR (lit [0x22]) 1 0 0,
     OWR (lit [0x33]) 1 0 0,
     OWR (lit [0x44]) 1 0 0,
     OWR (lit [0x55]) 1 0 0,
     OWR (lit [0x66]) 1 0 0,
     OWR (lit [0x77]) 1 0 0,
     OWR (lit [0x88]) 1 0 0,
     OWR (lit [0x99]) 1 0 0,
     OWR (lit [0xAA]) 1 0 0,
     OWR (lit [0xBB]) 1 0 0,
     OWR (lit [0xCC]) 1 0 0,
     OWR (lit [0xDD]) 1 0 0,
     OWR (lit [0xEE]) 1 0 0,
     OWR (lit [0xFF]) 1 0 0,
     OWR (lit [0x92, 0x49, 0x24]) 3 0 0,
     OWR (lit [0x49, 0x24, 0x92]) 3 0 0,
     OWR (lit [0x24, 0x92, 0x49]) 3 0 0,
     OWR (lit [0x6D, 0xB6, 0xDB]) 3 0 0,
     OWR (lit [0xB6, 0xDB, 0x6D]) 3 0 0,
     OWR (lit [0xDB, 0x92, 0x49]) 3 0 0,
     OWR None 0 1 0,
     OWR None 0 1 0,
     OWR None 0 1 0,
     OWR None 0 1 0 ]"

definition r_Fast :: "OverWriteRule list" where
  "r_Fast = [ OWR (lit [0x00]) 1 0 0 ]"

definition r_Gost :: "OverWriteRule list" where
  "r_Gost = [ OWR (lit [0x00]) 1 0 0, OWR None 0 1 0 ]"

definition r_UsDod5220_22_M :: "OverWriteRule list" where
  "r_UsDod5220_22_M = [ OWR (lit [0x00]) 1 0 0, OWR (lit [0xFF]) 1 0 0, OWR None 0 1 0 ]"

definition r_VSITR :: "OverWriteRule list" where
  "r_VSITR =
   [ OWR (lit [0x00]) 1 0 0,
     OWR (lit [0xFF]) 1 0 0,
     OWR (lit [0x00]) 1 0 0,
     OWR (lit [0xFF]) 1 0 0,
     OWR (lit [0x00]) 1 0 0,
     OWR (lit [0xFF]) 1 0 0,
     OWR (lit [0xAA]) 1 0 0 ]"

text \<open>\<^verbatim>\<open>struct WipePolicy_s { const char *name; int passes; OverWriteRule *rules; }\<close>\<close>

record WipePolicy =
  name :: string
  passes :: int
  rules :: "OverWriteRule list"

text \<open>\<^verbatim>\<open>#define COUNT_PASSES(x) sizeof(x)/sizeof(OverWriteRule)\<close>: the number of elements
  of the array \<open>x\<close>.\<close>

definition COUNT_PASSES :: "OverWriteRule list \<Rightarrow> int" where
  "COUNT_PASSES x = int (length x)"

definition FastPolicy :: WipePolicy where
  "FastPolicy = \<lparr> name = ''Fast'', passes = COUNT_PASSES r_Fast, rules = r_Fast \<rparr>"

definition GostPolicy :: WipePolicy where
  "GostPolicy = \<lparr> name = ''Russian GOST P50739-95'', passes = COUNT_PASSES r_Gost,
                  rules = r_Gost \<rparr>"

definition PeterGutmannPolicy :: WipePolicy where
  "PeterGutmannPolicy = \<lparr> name = ''Peter Gutmann'', passes = COUNT_PASSES r_Gutmann,
                          rules = r_Gutmann \<rparr>"

definition DOD522022MPolicy :: WipePolicy where
  "DOD522022MPolicy = \<lparr> name = ''US DOD 5220.22-M'', passes = COUNT_PASSES r_UsDod5220_22_M,
                        rules = r_UsDod5220_22_M \<rparr>"

definition VsitrPolicy :: WipePolicy where
  "VsitrPolicy = \<lparr> name = ''German VSITR'', passes = COUNT_PASSES r_VSITR, rules = r_VSITR \<rparr>"

definition wPolicies :: "WipePolicy list" where
  "wPolicies = [ FastPolicy, GostPolicy, DOD522022MPolicy, VsitrPolicy, PeterGutmannPolicy ]"

definition N_POLICIES :: nat where
  "N_POLICIES = length wPolicies"

subsection \<open>The block filler\<close>

text \<open>\<^verbatim>\<open>static const int blockSize = 98304\<close>, the number of elements of \<^verbatim>\<open>owBlock\<close>.\<close>

definition blockSize :: nat where
  "blockSize = 98304"

text \<open>\<^verbatim>\<open>p[i]\<close> read and \<^verbatim>\<open>buf[i] = v\<close>, with the range check that C++ leaves out.\<close>

definition load :: "byte list option \<Rightarrow> nat \<Rightarrow> fault + byte" where
  "load p i = (case p of
       None \<Rightarrow> Inl NullPointer
     | Some xs \<Rightarrow> if i < length xs then Inr (xs ! i) else Inl (LoadOutOfRange i))"

definition store :: "byte list \<Rightarrow> nat \<Rightarrow> byte \<Rightarrow> fault + byte list" where
  "store buf i v = (if i < length buf then Inr (buf[i := v]) else Inl (StoreOutOfRange i))"

text \<open>
  \<^verbatim>\<open>OS::GetRandomData(buffer, sz)\<close> reads up to \<open>sz\<close> bytes of \<^verbatim>\<open>/dev/random\<close> into the
  front of the buffer; \<open>src\<close> is what the device delivers to this call. What is not delivered
  is left as it was.
\<close>

definition GetRandomData :: "byte list \<Rightarrow> nat \<Rightarrow> byte list \<Rightarrow> fault + byte list" where
  "GetRandomData buffer sz src =
     (let got = take sz src in
      if length got \<le> length buffer then Inr (got @ drop (length got) buffer)
      else Inl (StoreOutOfRange (length buffer)))"

text \<open>
  The inner loop of \<^verbatim>\<open>FillBlock\<close>:
  \<^verbatim>\<open>for (int dl = 0; dl < rules->datalen; dl++) owBlock[b+dl] = rules->data[dl];\<close>
  The counters are natural numbers: a store at or past the end of the block is a fault, so
  \<open>b + dl\<close> stays below the 98304 elements of the block and no \<^verbatim>\<open>int\<close> wraps before the
  computation has stopped. The comparison of \<^verbatim>\<open>dl\<close> with the unsigned \<^verbatim>\<open>datalen\<close> is
  unsigned, and \<^verbatim>\<open>dl\<close> is never negative.
\<close>

function fill_inner :: "OverWriteRule \<Rightarrow> nat \<Rightarrow> nat \<Rightarrow> byte list \<Rightarrow> fault + byte list" where
  "fill_inner rule b dl owBlock =
     (if dl < unat (datalen rule) then
        (case load (data rule) dl of
           Inl e \<Rightarrow> Inl e
         | Inr v \<Rightarrow>
            (case store owBlock (b + dl) v of
               Inl e \<Rightarrow> Inl e
             | Inr owBlock' \<Rightarrow> fill_inner rule b (dl + 1) owBlock'))
      else Inr owBlock)"
  by pat_completeness auto
termination
  by (relation "measure (\<lambda>(rule, b, dl, owBlock). unat (datalen rule) - dl)") auto

declare fill_inner.simps [simp del]

text \<open>
  The outer loop:
  \<^verbatim>\<open>for (int b = 0; b < blockSize; b += rules->datalen) { inner loop }\<close>
  It does not return when \<^verbatim>\<open>datalen\<close> is 0, which is the value \<open>None\<close>.
\<close>

partial_function (option) fill_outer ::
  "OverWriteRule \<Rightarrow> nat \<Rightarrow> byte list \<Rightarrow> (fault + byte list) option" where
  "fill_outer rule b owBlock =
     (if b < blockSize then
        (case fill_inner rule b 0 owBlock of
           Inl e \<Rightarrow> Some (Inl e)
         | Inr owBlock' \<Rightarrow> fill_outer rule (b + unat (datalen rule)) owBlock')
      else Some (Inr owBlock))"

text \<open>
  \<^verbatim>\<open>void FillBlock(char *owBlock, OverWriteRule *rules)\<close>. The parameter \<^verbatim>\<open>rules\<close> is
  \<open>rule\<close> here, \<open>rules\<close> being a field of the policy; \<open>src\<close> is what the random device
  delivers if it is read.
\<close>

definition FillBlock :: "byte list \<Rightarrow> OverWriteRule \<Rightarrow> byte list \<Rightarrow> (fault + byte list) option" where
  "FillBlock owBlock rule src =
     (if random rule = 0 then fill_outer rule 0 owBlock
      else Some (GetRandomData owBlock blockSize src))"

subsection \<open>The report log\<close>

text \<open>
  \<^verbatim>\<open>std::tm\<close> as \<^verbatim>\<open>std::gmtime\<close> fills it for a time at or after the epoch, where no
  field is negative.
\<close>

record tm =
  tm_sec :: nat
  tm_min :: nat
  tm_hour :: nat
  tm_mday :: nat
  tm_mon :: nat
  tm_year :: nat

definition digit :: "nat \<Rightarrow> char" where
  "digit n = ''0123456789'' ! (n mod 10)"

fun dec :: "nat \<Rightarrow> string" where
  "dec n = (if n < 10 then [digit n] else dec (n div 10) @ [digit n])"

declare dec.simps [simp del]

definition dec2 :: "nat \<Rightarrow> string" where
  "dec2 n = (if n < 10 then CHR ''0'' # dec n else dec n)"

text \<open>
  \<^verbatim>\<open>std::strftime\<close> for the conversions of the format that \<^verbatim>\<open>Log\<close> uses, as the C library
  documents them: \<^verbatim>\<open>%Y\<close> the year as a decimal number, \<^verbatim>\<open>%m\<close> the month 01 to 12,
  \<^verbatim>\<open>%d\<close> the day of the month, \<^verbatim>\<open>%H\<close>, \<^verbatim>\<open>%M\<close> and \<^verbatim>\<open>%S\<close> the hour, minute and second, each
  of two digits; any other character is copied.
\<close>

fun strftime :: "string \<Rightarrow> tm \<Rightarrow> string" where
  "strftime [] t = []"
| "strftime [c] t = [c]"
| "strftime (c # d # cs) t =
     (if c = CHR ''%'' then
        (if d = CHR ''Y'' then dec (tm_year t + 1900) @ strftime cs t
         else if d = CHR ''m'' then dec2 (tm_mon t + 1) @ strftime cs t
         else if d = CHR ''d'' then dec2 (tm_mday t) @ strftime cs t
         else if d = CHR ''H'' then dec2 (tm_hour t) @ strftime cs t
         else if d = CHR ''M'' then dec2 (tm_min t) @ strftime cs t
         else if d = CHR ''S'' then dec2 (tm_sec t) @ strftime cs t
         else c # d # strftime cs t)
      else c # strftime (d # cs) t)"

text \<open>The argument of a conversion in a \<^verbatim>\<open>Log\<close> call: \<^verbatim>\<open>%s\<close>, \<^verbatim>\<open>%d\<close>, \<^verbatim>\<open>%lu\<close>.\<close>

datatype arg = ArgS string | ArgD int | ArgLU uint

text \<open>One line of the log: the time stamp, and the message as its format and arguments.\<close>

record logline =
  stamp :: string
  fmt :: string
  args :: "arg list"

text \<open>
  \<^verbatim>\<open>class ReportLog\<close>: the two flags, the lines put on \<^verbatim>\<open>std::cout\<close> and on the report
  file \<^verbatim>\<open>fd\<close>, and the number of times the clock has been read.
\<close>

record ReportLog =
  enabled :: bool
  silent :: bool
  cout :: "logline list"
  fd :: "logline list"
  ticks :: nat

text \<open>
  \<^verbatim>\<open>void Log(const char *fmt, ...)\<close>; \<open>clock k\<close> is what \<^verbatim>\<open>std::gmtime\<close> gives for the
  \<open>k\<close>-th reading of \<^verbatim>\<open>std::time\<close>.
\<close>

definition Log :: "(nat \<Rightarrow> tm) \<Rightarrow> string \<Rightarrow> arg list \<Rightarrow> ReportLog \<Rightarrow> ReportLog" where
  "Log clock f as L =
     (if silent L \<and> \<not> enabled L then L
      else
        let line = \<lparr> stamp = strftime ''%Y-%m-%d-%H-%M-%SZ'' (clock (ticks L)),
                     fmt = f, args = as \<rparr>
        in L \<lparr> ticks := ticks L + 1,
               cout := (if \<not> silent L then cout L @ [line] else cout L),
               fd := (if enabled L then fd L @ [line] else fd L) \<rparr>)"

subsection \<open>The target and its output stream\<close>

text \<open>
  \<^verbatim>\<open>std::ofstream devfd\<close>: the bytes of the target, the put position, whether the stream has
  failed (\<^verbatim>\<open>fail()\<close>), and the \<^verbatim>\<open>write\<close> calls made on it so far. The stream's own buffer is
  left out: bytes reach the target as they are written. Opening for output truncates a
  regular file and leaves a block device as it is.
\<close>

datatype kind = BlockDevice | RegularFile

record ofstream =
  contents :: "byte list"
  tellp :: nat
  failbit :: bool
  issued :: "byte list list"

definition ofs_open :: "kind \<Rightarrow> byte list \<Rightarrow> ofstream" where
  "ofs_open k bytes =
     \<lparr> contents = (if k = RegularFile then [] else bytes), tellp = 0, failbit = False,
       issued = [] \<rparr>"

text \<open>\<^verbatim>\<open>seekp\<close> does nothing on a stream that has failed.\<close>

definition seekp :: "nat \<Rightarrow> ofstream \<Rightarrow> ofstream" where
  "seekp p f = (if failbit f then f else f \<lparr> tellp := p \<rparr>)"

text \<open>Bytes put at a position: over what is there, and past the end after a gap of zeros.\<close>

definition put :: "byte list \<Rightarrow> nat \<Rightarrow> byte list \<Rightarrow> byte list" where
  "put xs p bs = take p xs @ replicate (p - length xs) 0 @ bs @ drop (p + length bs) xs"

text \<open>
  \<^verbatim>\<open>write(s, n)\<close> with \<open>bs\<close> the \<open>n\<close> bytes at \<open>s\<close>. On a stream that has failed it does
  nothing. Otherwise the target takes \<open>accept k\<close> bytes of the \<open>k\<close>-th call; when these are
  fewer than \<open>n\<close> the stream fails.
\<close>

definition ofs_write :: "(nat \<Rightarrow> nat) \<Rightarrow> byte list \<Rightarrow> ofstream \<Rightarrow> ofstream" where
  "ofs_write accept bs f =
     (if failbit f then f \<lparr> issued := issued f @ [bs] \<rparr>
      else
        let got = take (accept (length (issued f))) bs
        in f \<lparr> contents := put (contents f) (tellp f) got,
               tellp := tellp f + length got,
               failbit := length got < length bs,
               issued := issued f @ [bs] \<rparr>)"

subsection \<open>The wipe session\<close>

text \<open>
  What the session does not decide: what \<^verbatim>\<open>/dev/random\<close> delivers to the \<open>k\<close>-th read,
  how many bytes the target takes from the \<open>k\<close>-th write, and the clock.
\<close>

record env =
  random_dev :: "nat \<Rightarrow> byte list"
  accept :: "nat \<Rightarrow> nat"
  clock :: "nat \<Rightarrow> tm"

text \<open>
  The locals of \<^verbatim>\<open>DiskWiper::main\<close> that the pass loop works on: \<^verbatim>\<open>Log\<close> (here \<open>rlog\<close>),
  \<^verbatim>\<open>devfd\<close>, \<^verbatim>\<open>owBlock\<close>, and two counts: the reads of \<^verbatim>\<open>/dev/random\<close> and the calls of
  \<^verbatim>\<open>FillBlock\<close> so far.
\<close>

record session =
  rlog :: ReportLog
  devfd :: ofstream
  owBlock :: "byte list"
  reads :: nat
  fills :: nat

text \<open>A call \<^verbatim>\<open>FillBlock(owBlock, rules)\<close> in \<^verbatim>\<open>main\<close>.\<close>

definition fill :: "env \<Rightarrow> OverWriteRule \<Rightarrow> session \<Rightarrow> (fault + session) option" where
  "fill E rule s =
     (case FillBlock (owBlock s) rule (random_dev E (reads s)) of
        None \<Rightarrow> None
      | Some (Inl e) \<Rightarrow> Some (Inl e)
      | Some (Inr buf) \<Rightarrow>
          Some (Inr (s \<lparr> owBlock := buf,
                          reads := (if random rule = 0 then reads s else reads s + 1),
                          fills := fills s + 1 \<rparr>)))"

text \<open>
  \<^verbatim>\<open>for (unsigned int cs = 1; cs < (size/blockSize); cs++)
  { if (rules->random) FillBlock(owBlock,rules); devfd.write((const char*)owBlock, blockSize); }\<close>
\<close>

function full_blocks ::
  "env \<Rightarrow> OverWriteRule \<Rightarrow> uint \<Rightarrow> uint \<Rightarrow> session \<Rightarrow> (fault + session) option" where
  "full_blocks E rule sz cs s =
     (if cs < sz div of_nat blockSize then
        (case (if random rule \<noteq> 0 then fill E rule s else Some (Inr s)) of
           None \<Rightarrow> None
         | Some (Inl e) \<Rightarrow> Some (Inl e)
         | Some (Inr s1) \<Rightarrow>
             full_blocks E rule sz (cs + 1)
               (s1 \<lparr> devfd := ofs_write (accept E) (take blockSize (owBlock s1)) (devfd s1) \<rparr>))
      else Some (Inr s))"
  by pat_completeness auto
termination
proof (relation "measure (\<lambda>(E, rule, sz, cs, s). unat (sz div of_nat blockSize) - unat cs)")
  fix E :: env and rule :: OverWriteRule and sz cs :: uint and s s' :: session
  define n :: uint where "n = sz div of_nat blockSize"
  assume "cs < sz div of_nat blockSize"
  then have "cs < n" by (simp add: n_def)
  then have "unat n - unat (cs + 1) < unat n - unat cs" by unat_arith
  then show "((E, rule, sz, cs + 1, s'), (E, rule, sz, cs, s))
      \<in> measure (\<lambda>(E, rule, sz, cs, s). unat (sz div of_nat blockSize) - unat cs)"
    by (simp add: n_def)
qed simp

declare full_blocks.simps [simp del]

text \<open>
  \<^verbatim>\<open>for (unsigned int cb = 0; cb < (size%blockSize); cb++)
  { if (rules->random) FillBlock(owBlock,rules); devfd.write((const char*)owBlock,1); }\<close>
\<close>

function tail_bytes ::
  "env \<Rightarrow> OverWriteRule \<Rightarrow> uint \<Rightarrow> uint \<Rightarrow> session \<Rightarrow> (fault + session) option" where
  "tail_bytes E rule sz cb s =
     (if cb < sz mod of_nat blockSize then
        (case (if random rule \<noteq> 0 then fill E rule s else Some (Inr s)) of
           None \<Rightarrow> None
         | Some (Inl e) \<Rightarrow> Some (Inl e)
         | Some (Inr s1) \<Rightarrow>
             tail_bytes E rule sz (cb + 1)
               (s1 \<lparr> devfd := ofs_write (accept E) (take 1 (owBlock s1)) (devfd s1) \<rparr>))
      else Some (Inr s))"
  by pat_completeness auto
termination
proof (relation "measure (\<lambda>(E, rule, sz, cb, s). unat (sz mod of_nat blockSize) - unat cb)")
  fix E :: env and rule :: OverWriteRule and sz cb :: uint and s s' :: session
  define n :: uint where "n = sz mod of_nat blockSize"
  assume "cb < sz mod of_nat blockSize"
  then have "cb < n" by (simp add: n_def)
  then have "unat n - unat (cb + 1) < unat n - unat cb" by unat_arith
  then show "((E, rule, sz, cb + 1, s'), (E, rule, sz, cb, s))
      \<in> measure (\<lambda>(E, rule, sz, cb, s). unat (sz mod of_nat blockSize) - unat cb)"
    by (simp add: n_def)
qed simp

declare tail_bytes.simps [simp del]

text \<open>Sequencing: a computation that has not returned or has faulted stops what follows.\<close>

definition and_then ::
  "(fault + 'a) option \<Rightarrow> ('a \<Rightarrow> (fault + 'b) option) \<Rightarrow> (fault + 'b) option" where
  "and_then m f = (case m of None \<Rightarrow> None | Some (Inl e) \<Rightarrow> Some (Inl e) | Some (Inr x) \<Rightarrow> f x)"

text \<open>\<^verbatim>\<open>&wPolicies[_ValidPolicySel].rules[step]\<close>\<close>

definition rule_at :: "WipePolicy \<Rightarrow> int \<Rightarrow> fault + OverWriteRule" where
  "rule_at pol step =
     (if 0 \<le> step \<and> nat step < length (rules pol) then Inr (rules pol ! nat step)
      else Inl (LoadOutOfRange (nat step)))"

text \<open>The body of the loop over the passes, lines 577 to 603 of \<^verbatim>\<open>DiskWiper.cpp\<close>.\<close>

definition wipe_pass :: "env \<Rightarrow> WipePolicy \<Rightarrow> uint \<Rightarrow> int \<Rightarrow> session \<Rightarrow> (fault + session) option" where
  "wipe_pass E pol sz step s =
     (case rule_at pol step of
        Inl e \<Rightarrow> Some (Inl e)
      | Inr rule \<Rightarrow>
         (let s1 = s \<lparr> devfd := seekp 0 (devfd s) \<rparr>;
              s2 = s1 \<lparr> rlog :=
                     (if random rule = 0
                      then Log (clock E) ''Building overwrite block for step %d'' [ArgD step] (rlog s1)
                      else Log (clock E) ''Scheduling random overwrite block for step %d''
                             [ArgD step] (rlog s1)) \<rparr>;
              s3 = s2 \<lparr> rlog := Log (clock E) ''Step %d: start'' [ArgD step] (rlog s2) \<rparr>
          in and_then (fill E rule s3) (\<lambda>s4.
             and_then (full_blocks E rule sz 1 s4) (\<lambda>s5.
             and_then (tail_bytes E rule sz 0 s5) (\<lambda>s6.
               Some (Inr (s6 \<lparr> rlog := Log (clock E) ''Step %d: done'' [ArgD step] (rlog s6) \<rparr>)))))))"

text \<open>\<^verbatim>\<open>for (int step = 0; step < wPolicies[_ValidPolicySel].passes; step++) { ... }\<close>\<close>

function passes_loop ::
  "env \<Rightarrow> WipePolicy \<Rightarrow> uint \<Rightarrow> int \<Rightarrow> session \<Rightarrow> (fault + session) option" where
  "passes_loop E pol sz step s =
     (if step < passes pol then
        (case wipe_pass E pol sz step s of
           None \<Rightarrow> None
         | Some (Inl e) \<Rightarrow> Some (Inl e)
         | Some (Inr s') \<Rightarrow> passes_loop E pol sz (step + 1) s')
      else Some (Inr s))"
  by pat_completeness auto
termination
  by (relation "measure (\<lambda>(E, pol, sz, step, s). nat (passes pol - step))") auto

declare passes_loop.simps [simp del]

definition E_SUCCESS :: int where "E_SUCCESS = 0"
definition E_FAILURE :: int where "E_FAILURE = 1"
definition E_CONTINUE :: int where "E_CONTINUE = 2"

text \<open>The members of \<^verbatim>\<open>class DiskWiper\<close> that \<^verbatim>\<open>main\<close> reads after \<^verbatim>\<open>ParseOption\<close>.\<close>

record DiskWiper =
  ValidPolicySel :: nat
  DeviceName :: string
  Reporting :: bool
  Quite :: bool

text \<open>
  \<^verbatim>\<open>DiskWiper::main\<close> from the point where \<^verbatim>\<open>ParseOption\<close> has returned \<^verbatim>\<open>E_CONTINUE\<close>.
  \<open>sz\<close> is what \<^verbatim>\<open>OS::GetDeviceSize\<close> returns, \<open>k\<close> and \<open>bytes\<close> are the target, \<open>ow0\<close> is
  the content of the uninitialised array \<^verbatim>\<open>owBlock\<close>. The result is the return code, the
  log, and the stream after \<^verbatim>\<open>close\<close>, or \<open>None\<close> for it when the target was never opened.
\<close>

definition main ::
  "env \<Rightarrow> DiskWiper \<Rightarrow> uint \<Rightarrow> kind \<Rightarrow> byte list \<Rightarrow> byte list \<Rightarrow>
     (fault + int \<times> ReportLog \<times> ofstream option) option" where
  "main E dw sz k bytes ow0 =
     (if ValidPolicySel dw < N_POLICIES then
        (let pol = wPolicies ! ValidPolicySel dw;
             L0 = \<lparr> enabled = Reporting dw, silent = Quite dw, cout = [], fd = [], ticks = 0 \<rparr>;
             L1 = Log (clock E) ''DiskWiper session start'' [] L0;
             L2 = Log (clock E) ''WipePolicy Selected: %s'' [ArgS (name pol)] L1;
             L3 = Log (clock E) ''Passes: %d'' [ArgD (passes pol)] L2;
             L4 = Log (clock E) ''Target device: %s'' [ArgS (DeviceName dw)] L3;
             L5 = Log (clock E) ''device: %s'' [ArgS (DeviceName dw)] L4;
             L6 = Log (clock E) ''Device/File Size: %lu'' [ArgLU sz] L5
         in if sz = 0 then
              (let L7 = Log (clock E) ''Invalid Disk/File Size'' [] L6;
                   L8 = Log (clock E) ''DiskWiper session aborted'' [] L7
               in Some (Inr (E_FAILURE, L8, None)))
            else
              and_then
                (passes_loop E pol sz 0
                   \<lparr> rlog = L6, devfd = ofs_open k bytes, owBlock = ow0, reads = 0,
                     fills = 0 \<rparr>)
                (\<lambda>s. let L7 = Log (clock E) ''DiskWiper session done'' [] (rlog s);
                          L8 = Log (clock E) ''----------------------'' [] L7
                      in Some (Inr (E_SUCCESS, L8, Some (devfd s)))))
      else Some (Inl (LoadOutOfRange (ValidPolicySel dw))))"

subsection \<open>Reading a rule\<close>

text \<open>
  The bytes that \<^verbatim>\<open>FillBlock\<close> takes from a rule that is not random,
  \<^verbatim>\<open>data[0]\<close> to \<^verbatim>\<open>data[datalen - 1]\<close>, and the two kinds of pass that the test
  \<^verbatim>\<open>rules->random\<close> tells apart.
\<close>

definition pattern :: "OverWriteRule \<Rightarrow> byte list" where
  "pattern rule = (case data rule of None \<Rightarrow> [] | Some xs \<Rightarrow> take (unat (datalen rule)) xs)"

datatype pass_kind = Fixed "byte list" | Random

definition pass_of :: "OverWriteRule \<Rightarrow> pass_kind" where
  "pass_of rule = (if random rule = 0 then Fixed (pattern rule) else Random)"

text \<open>
  A rule fits the block when it is random, or when its pattern is there, is not empty and
  has a length that divides \<^verbatim>\<open>blockSize\<close>.
\<close>

definition rule_fits :: "OverWriteRule \<Rightarrow> bool" where
  "rule_fits rule =
     (if random rule \<noteq> 0 then True
      else case data rule of
             None \<Rightarrow> False
           | Some xs \<Rightarrow> 0 < unat (datalen rule) \<and> unat (datalen rule) \<le> length xs \<and>
                        blockSize mod unat (datalen rule) = 0)"

text \<open>
  The comment beside the last fixed rule of \<^verbatim>\<open>r_Gutmann\<close> (line 145) gives its three
  bytes in binary: \<^verbatim>\<open>11011011 01101101 10110110\<close>.
\<close>

definition bits :: "string \<Rightarrow> byte" where
  "bits s = foldl (\<lambda>a c. 2 * a + (if c = CHR ''1'' then 1 else 0)) 0 s"

definition comment_145 :: "byte list" where
  "comment_145 = map bits [''11011011'', ''01101101'', ''10110110'']"

subsection \<open>The pass in closed form\<close>

text \<open>
  What the loops of a pass come to when no fill faults: \<open>refill\<close> is the call of
  \<^verbatim>\<open>FillBlock\<close> that a write cycle makes when the rule is random, \<open>filled\<close> the first call
  of the pass, \<open>cycle\<close> one turn of a write loop.
\<close>


definition refill :: "env \<Rightarrow> OverWriteRule \<Rightarrow> session \<Rightarrow> session" where
  "refill E rule s =
     (if random rule = 0 then s
      else s \<lparr> owBlock := take blockSize (random_dev E (reads s))
                   @ drop (length (take blockSize (random_dev E (reads s)))) (owBlock s),
               reads := reads s + 1,
               fills := fills s + 1 \<rparr>)"

definition filled :: "env \<Rightarrow> OverWriteRule \<Rightarrow> session \<Rightarrow> session" where
  "filled E rule s =
     (if random rule = 0
      then s \<lparr> owBlock := concat (replicate (blockSize div unat (datalen rule)) (pattern rule)),
               fills := fills s + 1 \<rparr>
      else refill E rule s)"

definition cycle :: "env \<Rightarrow> OverWriteRule \<Rightarrow> nat \<Rightarrow> session \<Rightarrow> session" where
  "cycle E rule n s =
     (let s1 = refill E rule s
      in s1 \<lparr> devfd := ofs_write (accept E) (take n (owBlock s1)) (devfd s1) \<rparr>)"


text \<open>A whole pass, and the passes from the \<open>k\<close>-th on.\<close>

definition pass_result :: "env \<Rightarrow> OverWriteRule \<Rightarrow> uint \<Rightarrow> int \<Rightarrow> session \<Rightarrow> session" where
  "pass_result E rule sz step s =
     (let s3 = s \<lparr> devfd := seekp 0 (devfd s),
                   rlog := Log (clock E) ''Step %d: start'' [ArgD step]
                     (Log (clock E)
                        (if random rule = 0 then ''Building overwrite block for step %d''
                         else ''Scheduling random overwrite block for step %d'')
                        [ArgD step] (rlog s)) \<rparr>;
          s4 = filled E rule s3;
          s5 = (cycle E rule blockSize ^^ (unat (sz div of_nat blockSize) - 1)) s4;
          s6 = (cycle E rule 1 ^^ unat (sz mod of_nat blockSize)) s5
      in s6 \<lparr> rlog := Log (clock E) ''Step %d: done'' [ArgD step] (rlog s6) \<rparr>)"

definition run_passes :: "env \<Rightarrow> WipePolicy \<Rightarrow> uint \<Rightarrow> nat \<Rightarrow> session \<Rightarrow> session" where
  "run_passes E pol sz k s =
     foldl (\<lambda>s i. pass_result E (rules pol ! i) sz (int i) s) s [k..<length (rules pol)]"


text \<open>A stream that has failed and has kept the target as it was.\<close>

definition dead :: "ofstream \<Rightarrow> ofstream \<Rightarrow> bool" where
  "dead f f' = (failbit f' \<and> contents f' = contents f \<and> tellp f' = tellp f)"


text \<open>
  The \<^verbatim>\<open>write\<close> calls \<open>ws\<close> made on a stream one after the other, with the put position
  set back to 0 before the first call of each pass; \<open>w\<close> is the number of calls of one
  pass. Nothing else is done to the stream.
\<close>

fun replay :: "(nat \<Rightarrow> nat) \<Rightarrow> nat \<Rightarrow> ofstream \<Rightarrow> byte list list \<Rightarrow> ofstream" where
  "replay a w f [] = f"
| "replay a w f (bs # ws) =
     replay a w (ofs_write a bs (if length (issued f) mod w = 0 then seekp 0 f else f)) ws"


subsection \<open>The lines of the log\<close>

text \<open>
  A message is a format with its arguments. \<open>emit\<close> is a run of \<^verbatim>\<open>Log\<close> calls, \<open>lines\<close>
  the lines that such a run puts out from the \<open>k\<close>-th reading of the clock on,
  \<open>session_messages\<close> the messages of \<^verbatim>\<open>main\<close> in the order of its \<^verbatim>\<open>Log\<close> calls.
  \<open>iso_shape\<close> is the form \<^verbatim>\<open>YYYY-MM-DD-HH-MM-SSZ\<close>.
\<close>


type_synonym message = "string \<times> arg list"

definition emit :: "(nat \<Rightarrow> tm) \<Rightarrow> message list \<Rightarrow> ReportLog \<Rightarrow> ReportLog" where
  "emit clk ms L = foldl (\<lambda>L (f, as). Log clk f as L) L ms"

fun lines :: "(nat \<Rightarrow> tm) \<Rightarrow> nat \<Rightarrow> message list \<Rightarrow> logline list" where
  "lines clk k [] = []"
| "lines clk k ((f, as) # ms) =
     \<lparr> stamp = strftime ''%Y-%m-%d-%H-%M-%SZ'' (clk k), fmt = f, args = as \<rparr> # lines clk (Suc k) ms"

definition messages_of :: "logline list \<Rightarrow> message list" where
  "messages_of ls = map (\<lambda>l. (fmt l, args l)) ls"

definition pass_messages :: "WipePolicy \<Rightarrow> nat \<Rightarrow> message list" where
  "pass_messages pol i =
     [ (if random (rules pol ! i) = 0 then ''Building overwrite block for step %d''
        else ''Scheduling random overwrite block for step %d'', [ArgD (int i)]),
       (''Step %d: start'', [ArgD (int i)]),
       (''Step %d: done'', [ArgD (int i)]) ]"

definition session_messages :: "WipePolicy \<Rightarrow> string \<Rightarrow> uint \<Rightarrow> message list" where
  "session_messages pol dev sz =
     [ (''DiskWiper session start'', []),
       (''WipePolicy Selected: %s'', [ArgS (name pol)]),
       (''Passes: %d'', [ArgD (passes pol)]),
       (''Target device: %s'', [ArgS dev]),
       (''device: %s'', [ArgS dev]),
       (''Device/File Size: %lu'', [ArgLU sz]) ]
     @ (if sz = 0
        then [ (''Invalid Disk/File Size'', []), (''DiskWiper session aborted'', []) ]
        else concat (map (pass_messages pol) [0..<length (rules pol)])
             @ [ (''DiskWiper session done'', []), (''----------------------'', []) ])"

definition is_digit :: "char \<Rightarrow> bool" where
  "is_digit c = (c \<in> set ''0123456789'')"

definition iso_shape :: "string \<Rightarrow> bool" where
  "iso_shape s =
     (length s = 20 \<and>
      list_all is_digit (map ((!) s) [0, 1, 2, 3, 5, 6, 8, 9, 11, 12, 14, 15, 17, 18]) \<and>
      map ((!) s) [4, 7, 10, 13, 16, 19] = ''-----Z'')"

definition tm_ok :: "tm \<Rightarrow> bool" where
  "tm_ok t = (1000 \<le> tm_year t + 1900 \<and> tm_year t + 1900 < 10000 \<and> tm_mon t < 12 \<and>
     tm_mday t < 32 \<and> tm_hour t < 24 \<and> tm_min t < 60 \<and> tm_sec t < 62)"


text \<open>The log when \<^verbatim>\<open>main\<close> starts, and the messages up to the size of the target.\<close>

definition session0 :: "DiskWiper \<Rightarrow> ReportLog" where
  "session0 dw = \<lparr> enabled = Reporting dw, silent = Quite dw, cout = [], fd = [], ticks = 0 \<rparr>"

definition header :: "WipePolicy \<Rightarrow> string \<Rightarrow> uint \<Rightarrow> message list" where
  "header pol dev sz =
     [ (''DiskWiper session start'', []),
       (''WipePolicy Selected: %s'', [ArgS (name pol)]),
       (''Passes: %d'', [ArgD (passes pol)]),
       (''Target device: %s'', [ArgS dev]),
       (''device: %s'', [ArgS dev]),
       (''Device/File Size: %lu'', [ArgLU sz]) ]"


subsection \<open>Concrete sessions\<close>

text \<open>
  Values for concrete runs: a clock that stands at 2013-01-01 00:00:00, a random device
  whose \<open>k\<close>-th read is a block of the byte \<open>k\<close>, a target that takes every byte
  (\<open>env_ok\<close>), none (\<open>env_failing\<close>) or five of each write (\<open>env_short\<close>), a random
  device that delivers nothing
  (\<open>env_dry\<close>), and the members of \<^verbatim>\<open>DiskWiper\<close> for policy number
  \<open>sel\<close> with the log on.
\<close>


definition new_year_2013 :: tm where
  "new_year_2013 = \<lparr> tm_sec = 0, tm_min = 0, tm_hour = 0, tm_mday = 1, tm_mon = 0, tm_year = 113 \<rparr>"

definition env_ok :: env where
  "env_ok = \<lparr> random_dev = (\<lambda>k. replicate blockSize (of_nat k)), accept = (\<lambda>k. blockSize),
              clock = (\<lambda>k. new_year_2013) \<rparr>"

definition env_failing :: env where
  "env_failing = \<lparr> random_dev = (\<lambda>k. replicate blockSize (of_nat k)), accept = (\<lambda>k. 0),
                   clock = (\<lambda>k. new_year_2013) \<rparr>"

definition env_short :: env where
  "env_short = \<lparr> random_dev = (\<lambda>k. replicate blockSize (of_nat k)), accept = (\<lambda>k. 5),
                 clock = (\<lambda>k. new_year_2013) \<rparr>"

definition env_dry :: env where
  "env_dry = \<lparr> random_dev = (\<lambda>k. []), accept = (\<lambda>k. blockSize), clock = (\<lambda>k. new_year_2013) \<rparr>"

definition dw_example :: "nat \<Rightarrow> DiskWiper" where
  "dw_example sel = \<lparr> ValidPolicySel = sel, DeviceName = ''/dev/disk2'', Reporting = True,
                      Quite = False \<rparr>"


text \<open>
  The events of the log as the specification names them, and the order that the
  specification gives them for a session of \<open>n\<close> passes; \<open>zero\<close> says that the size
  of the target is 0, where the session ends with the size found invalid and the abort. \<open>event_of\<close> reads
  a message of \<^verbatim>\<open>main\<close> as one of these events; a message for which the specification
  has no name is \<open>Unlisted\<close>.
\<close>

datatype event = SessionStart | PolicyName | PassCount | TargetIdentifier | TargetSize
  | SizeInvalid | PassStart int | PassDone int | SessionDone | SessionAborted | Unlisted

definition step_of :: "arg list \<Rightarrow> int" where
  "step_of as = (case as of [ArgD i] \<Rightarrow> i | _ \<Rightarrow> 0)"

definition event_of :: "message \<Rightarrow> event" where
  "event_of m =
     (if fst m = ''DiskWiper session start'' then SessionStart
      else if fst m = ''WipePolicy Selected: %s'' then PolicyName
      else if fst m = ''Passes: %d'' then PassCount
      else if fst m = ''Target device: %s'' then TargetIdentifier
      else if fst m = ''device: %s'' then TargetIdentifier
      else if fst m = ''Device/File Size: %lu'' then TargetSize
      else if fst m = ''Invalid Disk/File Size'' then SizeInvalid
      else if fst m = ''Step %d: start'' then PassStart (step_of (snd m))
      else if fst m = ''Step %d: done'' then PassDone (step_of (snd m))
      else if fst m = ''DiskWiper session done'' then SessionDone
      else if fst m = ''DiskWiper session aborted'' then SessionAborted
      else Unlisted)"

definition claimed_order :: "nat \<Rightarrow> bool \<Rightarrow> event list" where
  "claimed_order n zero =
     [SessionStart, PolicyName, PassCount, TargetIdentifier, TargetSize]
     @ (if zero then [SizeInvalid, SessionAborted]
        else concat (map (\<lambda>i. [PassStart (int i), PassDone (int i)]) [0..<n])
             @ [SessionDone])"

text \<open>
  The events of a log: each line read as an event, the lines that are no event of the
  specification left out, and a line that repeats the event of the line before it
  counted once (the target is named by two lines).
\<close>

definition events_of :: "logline list \<Rightarrow> event list" where
  "events_of ls = remdups_adj (filter (\<lambda>e. e \<noteq> Unlisted) (map event_of (messages_of ls)))"

text \<open>A session at the start of a pass, over a block device of three bytes.\<close>

definition session_example :: session where
  "session_example =
     \<lparr> rlog = session0 (dw_example 1), devfd = ofs_open BlockDevice [9, 9, 9],
       owBlock = replicate blockSize 0, reads = 0, fills = 0 \<rparr>"


section \<open>The block filler: what the two loops compute\<close>


lemma fill_inner_ok:
  assumes "data rule = Some xs" "unat (datalen rule) \<le> length xs"
    "b + unat (datalen rule) \<le> length buf" "dl \<le> unat (datalen rule)"
  shows "fill_inner rule b dl buf =
     Inr (take (b + dl) buf @ drop dl (take (unat (datalen rule)) xs) @ drop (b + unat (datalen rule)) buf)"
  using assms
proof (induction rule b dl buf rule: fill_inner.induct)
  case (1 rule b dl owBlock)
  let ?L = "unat (datalen rule)"
  show ?case
  proof (cases "dl < ?L")
    case False
    with 1 have "dl = ?L" by simp
    with False show ?thesis by (subst fill_inner.simps) simp
  next
    case True
    with 1 have ld: "load (data rule) dl = Inr (xs ! dl)" by (simp add: load_def)
    from True 1 have lt: "b + dl < length owBlock" by simp
    then have st: "store owBlock (b + dl) (xs ! dl) = Inr (owBlock[b + dl := xs ! dl])"
      by (simp add: store_def)
    have "fill_inner rule b (dl + 1) (owBlock[b + dl := xs ! dl]) =
      Inr (take (b + (dl + 1)) (owBlock[b + dl := xs ! dl]) @ drop (dl + 1) (take ?L xs)
           @ drop (b + ?L) (owBlock[b + dl := xs ! dl]))"
      using 1 True ld st by (intro "1.IH") auto
    moreover have "take (b + (dl + 1)) (owBlock[b + dl := xs ! dl]) = take (b + dl) owBlock @ [xs ! dl]"
      using lt by (simp add: take_Suc_conv_app_nth)
    moreover have "drop (b + ?L) (owBlock[b + dl := xs ! dl]) = drop (b + ?L) owBlock"
      using True by simp
    moreover have "drop dl (take ?L xs) = xs ! dl # drop (dl + 1) (take ?L xs)"
      using True 1 Cons_nth_drop_Suc [of dl "take ?L xs"] by simp
    ultimately show ?thesis
      using True ld st by (simp add: fill_inner.simps [of rule b dl owBlock])
  qed
qed

lemma fill_inner_overrun:
  assumes "data rule = Some xs" "unat (datalen rule) \<le> length xs"
    "length buf < b + unat (datalen rule)" "b + dl \<le> length buf"
  shows "fill_inner rule b dl buf = Inl (StoreOutOfRange (length buf))"
  using assms
proof (induction rule b dl buf rule: fill_inner.induct)
  case (1 rule b dl owBlock)
  let ?L = "unat (datalen rule)"
  from 1 have True: "dl < ?L" by simp
  with 1 have ld: "load (data rule) dl = Inr (xs ! dl)" by (simp add: load_def)
  show ?case
  proof (cases "b + dl < length owBlock")
    case False
    with 1 have "b + dl = length owBlock" by simp
    then show ?thesis using True ld
      by (simp add: fill_inner.simps [of rule b dl owBlock] store_def)
  next
    case lt: True
    then have st: "store owBlock (b + dl) (xs ! dl) = Inr (owBlock[b + dl := xs ! dl])"
      by (simp add: store_def)
    have "fill_inner rule b (dl + 1) (owBlock[b + dl := xs ! dl]) =
       Inl (StoreOutOfRange (length (owBlock[b + dl := xs ! dl])))"
      using 1 True ld st lt by (intro "1.IH") auto
    then show ?thesis using True ld st
      by (simp add: fill_inner.simps [of rule b dl owBlock])
  qed
qed

lemma fill_outer_ok:
  assumes "data rule = Some xs" "L = unat (datalen rule)" "0 < L" "L \<le> length xs"
    "length buf = blockSize" "b \<le> blockSize" "L dvd (blockSize - b)"
  shows "fill_outer rule b buf =
     Some (Inr (take b buf @ concat (replicate ((blockSize - b) div L) (take L xs))))"
  using assms(5-)
proof (induction "blockSize - b" arbitrary: b buf rule: less_induct)
  case less
  show ?case
  proof (cases "b < blockSize")
    case False
    with less.prems show ?thesis by (subst fill_outer.simps) simp
  next
    case True
    with less.prems assms(3) have le: "L \<le> blockSize - b"
      by (auto intro: dvd_imp_le)
    let ?buf = "take b buf @ take L xs @ drop (b + L) buf"
    have inner: "fill_inner rule b 0 buf = Inr ?buf"
      using fill_inner_ok [of rule xs b buf 0] assms less.prems le by simp
    have dv: "L dvd blockSize - (b + L)"
      using less.prems le dvd_diff_nat [of L "blockSize - b" L] by simp
    have len: "length ?buf = blockSize" using less.prems le assms by simp
    have rec: "fill_outer rule (b + L) ?buf =
       Some (Inr (take (b + L) ?buf @ concat (replicate ((blockSize - (b + L)) div L) (take L xs))))"
      using True le assms(3) len dv by (intro less.hyps) auto
    have tk: "take (b + L) ?buf = take b buf @ take L xs"
      using less.prems assms le by simp
    have "(blockSize - b) div L = Suc ((blockSize - (b + L)) div L)"
      using le assms(3) le_div_geq [of L "blockSize - b"] by simp
    then show ?thesis
      using True inner rec tk assms(2) by (simp add: fill_outer.simps [of rule b buf])
  qed
qed

lemma fill_outer_overrun:
  assumes "data rule = Some xs" "L = unat (datalen rule)" "0 < L" "L \<le> length xs"
    "length buf = blockSize" "b \<le> blockSize" "\<not> L dvd (blockSize - b)"
  shows "fill_outer rule b buf = Some (Inl (StoreOutOfRange blockSize))"
  using assms(5-)
proof (induction "blockSize - b" arbitrary: b buf rule: less_induct)
  case less
  from less.prems have True: "b < blockSize" by (cases "b < blockSize") auto
  show ?case
  proof (cases "L \<le> blockSize - b")
    case False
    then have "fill_inner rule b 0 buf = Inl (StoreOutOfRange (length buf))"
      using assms less.prems by (intro fill_inner_overrun [of rule xs]) auto
    then show ?thesis using True less.prems by (simp add: fill_outer.simps [of rule b buf])
  next
    case le: True
    let ?buf = "take b buf @ take L xs @ drop (b + L) buf"
    have inner: "fill_inner rule b 0 buf = Inr ?buf"
      using fill_inner_ok [of rule xs b buf 0] assms less.prems le by simp
    have dv: "\<not> L dvd blockSize - (b + L)"
      using less.prems le dvd_diffD [of L "blockSize - b" L] by auto
    have len: "length ?buf = blockSize" using less.prems le assms by simp
    have rec: "fill_outer rule (b + L) ?buf = Some (Inl (StoreOutOfRange blockSize))"
      using True le assms(3) len dv by (intro less.hyps) auto
    then show ?thesis
      using True inner assms(2) by (simp add: fill_outer.simps [of rule b buf])
  qed
qed

lemma fill_outer_loops:
  assumes "fill_outer rule b buf = Some y"
  shows "\<not> (datalen rule = 0 \<and> b < blockSize)"
proof (rule fill_outer.raw_induct
    [where P = "\<lambda>rule b buf y. \<not> (datalen rule = 0 \<and> b < blockSize)", OF _ assms])
  fix f rule b buf and y :: "fault + byte list"
  assume IH: "\<And>rule b buf y. f rule b buf = Some y \<Longrightarrow> \<not> (datalen rule = 0 \<and> b < blockSize)"
    and eq: "(if b < blockSize
      then case fill_inner rule b 0 buf of Inl e \<Rightarrow> Some (Inl e)
           | Inr owBlock' \<Rightarrow> f rule (b + unat (datalen rule)) owBlock'
      else Some (Inr buf)) = Some y"
  show "\<not> (datalen rule = 0 \<and> b < blockSize)"
  proof
    assume a: "datalen rule = 0 \<and> b < blockSize"
    then have "fill_inner rule b 0 buf = Inr buf" by (subst fill_inner.simps) simp
    with a eq have "f rule b buf = Some y" by simp
    with IH a show False by blast
  qed
qed

lemma nth_concat_replicate:
  "0 < length P \<Longrightarrow> k < n * length P \<Longrightarrow> concat (replicate n P) ! k = P ! (k mod length P)"
proof (induction n arbitrary: k)
  case 0 then show ?case by simp
next
  case (Suc n)
  show ?case
  proof (cases "k < length P")
    case True then show ?thesis by (simp add: nth_append)
  next
    case False
    with Suc.prems have "k - length P < n * length P" by simp
    with Suc have "concat (replicate n P) ! (k - length P) = P ! ((k - length P) mod length P)"
      by simp
    with False show ?thesis by (simp add: nth_append le_mod_geq)
  qed
qed

lemma blockSize_facts: "(1::nat) dvd blockSize" "(3::nat) dvd blockSize"
  by (simp_all add: blockSize_def)

lemma catalog_fits: "list_all rule_fits (concat (map rules wPolicies))"
  by (simp add: wPolicies_def FastPolicy_def GostPolicy_def DOD522022MPolicy_def VsitrPolicy_def
      PeterGutmannPolicy_def r_Fast_def r_Gost_def r_UsDod5220_22_M_def r_VSITR_def r_Gutmann_def
      OWR_def lit_def rule_fits_def blockSize_def)

lemma FillBlock_fixed:
  assumes "random rule = 0" "data rule = Some xs" "L = unat (datalen rule)" "0 < L"
    "L \<le> length xs" "L dvd blockSize" "length buf = blockSize"
  shows "FillBlock buf rule src = Some (Inr (concat (replicate (blockSize div L) (take L xs))))"
  using fill_outer_ok [of rule xs L buf 0] assms by (simp add: FillBlock_def)

lemma FillBlock_overrun:
  assumes "random rule = 0" "data rule = Some xs" "L = unat (datalen rule)" "0 < L"
    "L \<le> length xs" "\<not> L dvd blockSize" "length buf = blockSize"
  shows "FillBlock buf rule src = Some (Inl (StoreOutOfRange blockSize))"
  using fill_outer_overrun [of rule xs L buf 0] assms by (simp add: FillBlock_def)

lemma FillBlock_random:
  assumes "random rule \<noteq> 0" "length buf = blockSize"
  shows "FillBlock buf rule src =
     Some (Inr (take blockSize src @ drop (length (take blockSize src)) buf))"
  using assms by (simp add: FillBlock_def GetRandomData_def Let_def)

lemma FillBlock_empty_pattern:
  assumes "random rule = 0" "datalen rule = 0"
  shows "FillBlock buf rule src = None"
proof (cases "fill_outer rule 0 buf")
  case None
  with assms(1) show ?thesis by (simp add: FillBlock_def)
next
  case (Some y)
  from fill_outer_loops [OF this] assms(2) show ?thesis by (simp add: blockSize_def)
qed

lemma FillBlock_fits:
  assumes "rule_fits rule" "length buf = blockSize"
  shows "\<exists>buf'. FillBlock buf rule src = Some (Inr buf') \<and> length buf' = blockSize"
proof (cases "random rule = 0")
  case False
  with assms show ?thesis by (simp add: FillBlock_random)
next
  case True
  with assms obtain xs where xs: "data rule = Some xs" "0 < unat (datalen rule)"
    "unat (datalen rule) \<le> length xs" "unat (datalen rule) dvd blockSize"
    by (auto simp: rule_fits_def split: option.splits)
  then show ?thesis using True assms(2)
    by (simp add: FillBlock_fixed [OF True xs(1) refl] length_concat sum_list_replicate)
qed

lemmas catalog_defs = wPolicies_def FastPolicy_def GostPolicy_def DOD522022MPolicy_def
  VsitrPolicy_def PeterGutmannPolicy_def r_Fast_def r_Gost_def r_UsDod5220_22_M_def r_VSITR_def
  r_Gutmann_def COUNT_PASSES_def

lemmas rule_defs = OWR_def lit_def pass_of_def pattern_def

lemma catalog_rule_shape:
  assumes "rule \<in> set (concat (map rules wPolicies))"
  shows "if random rule \<noteq> 0 then data rule = None
         else (unat (datalen rule) = 1 \<or> unat (datalen rule) = 3)"
  using assms by (auto simp: catalog_defs OWR_def lit_def)


section \<open>The write loops\<close>

lemma refill_length [simp]:
  "length (owBlock s) = blockSize \<Longrightarrow> length (owBlock (refill E rule s)) = blockSize"
  by (simp add: refill_def)

lemma refill_rlog [simp]: "rlog (refill E rule s) = rlog s"
  by (simp add: refill_def)

lemma cycle_length [simp]:
  "length (owBlock s) = blockSize \<Longrightarrow> length (owBlock (cycle E rule n s)) = blockSize"
  by (simp add: cycle_def Let_def)

lemma cycle_rlog [simp]: "rlog (cycle E rule n s) = rlog s"
  by (simp add: cycle_def Let_def)

lemma cycles_length [simp]:
  "length (owBlock s) = blockSize \<Longrightarrow> length (owBlock ((cycle E rule n ^^ m) s)) = blockSize"
  by (induction m) simp_all

lemma cycles_rlog [simp]: "rlog ((cycle E rule n ^^ m) s) = rlog s"
  by (induction m) simp_all

lemma fill_random:
  assumes "random rule \<noteq> 0" "length (owBlock s) = blockSize"
  shows "fill E rule s = Some (Inr (refill E rule s))"
  using assms by (simp add: fill_def FillBlock_random refill_def)

lemma fill_fits:
  assumes "rule_fits rule" "length (owBlock s) = blockSize"
  shows "fill E rule s = Some (Inr (filled E rule s))"
proof (cases "random rule = 0")
  case False
  with assms show ?thesis by (simp add: fill_random filled_def)
next
  case True
  with assms obtain xs where xs: "data rule = Some xs" "0 < unat (datalen rule)"
    "unat (datalen rule) \<le> length xs" "unat (datalen rule) dvd blockSize"
    by (auto simp: rule_fits_def split: option.splits)
  then show ?thesis using True assms(2)
    by (simp add: fill_def FillBlock_fixed [OF True xs(1) refl] filled_def pattern_def)
qed

lemma refill_or_not:
  assumes "length (owBlock s) = blockSize"
  shows "(if random rule \<noteq> 0 then fill E rule s else Some (Inr s)) = Some (Inr (refill E rule s))"
  using assms by (simp add: fill_random) (simp add: refill_def)

lemma word_succ: "(c::uint) < n \<Longrightarrow> unat n - unat c = Suc (unat n - unat (c + 1))"
  by unat_arith

lemma full_blocks_eq:
  assumes "length (owBlock s) = blockSize"
  shows "full_blocks E rule sz cs s =
     Some (Inr ((cycle E rule blockSize ^^ (unat (sz div of_nat blockSize) - unat cs)) s))"
  using assms
proof (induction E rule sz cs s rule: full_blocks.induct)
  case (1 E rule sz cs s)
  show ?case
  proof (cases "cs < sz div of_nat blockSize")
    case False
    then have "unat (sz div of_nat blockSize) - unat cs = 0"
      by (simp add: word_less_nat_alt)
    with False show ?thesis by (subst full_blocks.simps) simp
  next
    case True
    let ?s1 = "refill E rule s"
    let ?s2 = "?s1 \<lparr> devfd := ofs_write (accept E) (take blockSize (owBlock ?s1)) (devfd ?s1) \<rparr>"
    have c: "cycle E rule blockSize s = ?s2" by (simp add: cycle_def Let_def)
    have "full_blocks E rule sz (cs + 1) ?s2 =
       Some (Inr ((cycle E rule blockSize ^^ (unat (sz div of_nat blockSize) - unat (cs + 1))) ?s2))"
      using True refill_or_not [OF "1.prems", of rule E] "1.prems"
      by (intro "1.IH") simp_all
    then show ?thesis
      using True refill_or_not [OF "1.prems", of rule E] c word_succ [OF True]
      by (subst full_blocks.simps) (simp add: funpow_swap1)
  qed
qed

lemma tail_bytes_eq:
  assumes "length (owBlock s) = blockSize"
  shows "tail_bytes E rule sz cb s =
     Some (Inr ((cycle E rule 1 ^^ (unat (sz mod of_nat blockSize) - unat cb)) s))"
  using assms
proof (induction E rule sz cb s rule: tail_bytes.induct)
  case (1 E rule sz cb s)
  show ?case
  proof (cases "cb < sz mod of_nat blockSize")
    case False
    then have "unat (sz mod of_nat blockSize) - unat cb = 0"
      by (simp add: word_less_nat_alt)
    with False show ?thesis by (subst tail_bytes.simps) simp
  next
    case True
    let ?s1 = "refill E rule s"
    let ?s2 = "?s1 \<lparr> devfd := ofs_write (accept E) (take 1 (owBlock ?s1)) (devfd ?s1) \<rparr>"
    have c: "cycle E rule 1 s = ?s2" by (simp add: cycle_def Let_def)
    have "tail_bytes E rule sz (cb + 1) ?s2 =
       Some (Inr ((cycle E rule 1 ^^ (unat (sz mod of_nat blockSize) - unat (cb + 1))) ?s2))"
      using True refill_or_not [OF "1.prems", of rule E] "1.prems"
      by (intro "1.IH") simp_all
    then show ?thesis
      using True refill_or_not [OF "1.prems", of rule E] c word_succ [OF True]
      by (subst tail_bytes.simps) (simp add: funpow_swap1)
  qed
qed

lemma filled_length [simp]:
  "rule_fits rule \<Longrightarrow> length (owBlock s) = blockSize \<Longrightarrow>
   length (owBlock (filled E rule s)) = blockSize"
  by (cases "random rule = 0")
     (auto simp: filled_def rule_fits_def pattern_def length_concat sum_list_replicate
           split: option.splits)

lemma filled_rlog [simp]: "rlog (filled E rule s) = rlog s"
  by (simp add: filled_def)

lemma wipe_pass_eq:
  assumes "rule_at pol step = Inr rule" "rule_fits rule" "length (owBlock s) = blockSize"
  shows "wipe_pass E pol sz step s = Some (Inr (pass_result E rule sz step s))"
proof -
  let ?s3 = "s \<lparr> devfd := seekp 0 (devfd s),
                   rlog := Log (clock E) ''Step %d: start'' [ArgD step]
                     (Log (clock E)
                        (if random rule = 0 then ''Building overwrite block for step %d''
                         else ''Scheduling random overwrite block for step %d'')
                        [ArgD step] (rlog s)) \<rparr>"
  let ?s4 = "filled E rule ?s3"
  let ?s5 = "(cycle E rule blockSize ^^ (unat (sz div of_nat blockSize) - 1)) ?s4"
  have l3: "length (owBlock ?s3) = blockSize" using assms(3) by simp
  have f: "fill E rule ?s3 = Some (Inr ?s4)" using assms(2) l3 by (rule fill_fits)
  have l4: "length (owBlock ?s4) = blockSize" using assms(2) l3 by (rule filled_length)
  have fb: "full_blocks E rule sz 1 ?s4 = Some (Inr ?s5)"
    using full_blocks_eq [OF l4, of E rule sz 1] by simp
  have l5: "length (owBlock ?s5) = blockSize" using l4 by (rule cycles_length)
  have tb: "tail_bytes E rule sz 0 ?s5 =
      Some (Inr ((cycle E rule 1 ^^ unat (sz mod of_nat blockSize)) ?s5))"
    using tail_bytes_eq [OF l5, of E rule sz 0] by simp
  have s3: "(if random rule = 0
       then s \<lparr> devfd := seekp 0 (devfd s),
                rlog := Log (clock E) ''Step %d: start'' [ArgD step]
                  (Log (clock E) ''Building overwrite block for step %d'' [ArgD step] (rlog s)) \<rparr>
       else s \<lparr> devfd := seekp 0 (devfd s),
                rlog := Log (clock E) ''Step %d: start'' [ArgD step]
                  (Log (clock E) ''Scheduling random overwrite block for step %d'' [ArgD step] (rlog s)) \<rparr>)
       = ?s3" by simp
  show ?thesis
    unfolding wipe_pass_def pass_result_def Let_def
    using assms(1) f fb tb
    by (cases "random rule = 0") (simp_all add: and_then_def)
qed

lemma pass_result_length [simp]:
  "rule_fits rule \<Longrightarrow> length (owBlock s) = blockSize \<Longrightarrow>
   length (owBlock (pass_result E rule sz step s)) = blockSize"
  by (simp add: pass_result_def Let_def)

lemma run_passes_done: "length (rules pol) \<le> k \<Longrightarrow> run_passes E pol sz k s = s"
  by (simp add: run_passes_def)

lemma run_passes_step:
  "k < length (rules pol) \<Longrightarrow>
   run_passes E pol sz k s = run_passes E pol sz (Suc k) (pass_result E (rules pol ! k) sz (int k) s)"
  by (simp add: run_passes_def upt_conv_Cons)

lemma passes_loop_eq:
  assumes "passes pol = int (length (rules pol))" "list_all rule_fits (rules pol)"
    "length (owBlock s) = blockSize"
  shows "passes_loop E pol sz (int k) s = Some (Inr (run_passes E pol sz k s))"
  using assms(3)
proof (induction "length (rules pol) - k" arbitrary: k s)
  case 0
  then show ?case using assms(1)
    by (subst passes_loop.simps) (simp add: run_passes_done)
next
  case (Suc n)
  then have k: "k < length (rules pol)" by simp
  let ?rule = "rules pol ! k"
  have fits: "rule_fits ?rule" using assms(2) k by (simp add: list_all_length)
  have at: "rule_at pol (int k) = Inr ?rule" using k by (simp add: rule_at_def)
  have wp: "wipe_pass E pol sz (int k) s = Some (Inr (pass_result E ?rule sz (int k) s))"
    using at fits Suc.prems by (rule wipe_pass_eq)
  have "passes_loop E pol sz (int (Suc k)) (pass_result E ?rule sz (int k) s) =
     Some (Inr (run_passes E pol sz (Suc k) (pass_result E ?rule sz (int k) s)))"
    using Suc.hyps(2) fits Suc.prems by (intro Suc.hyps(1)) simp_all
  then show ?case using k assms(1) wp
    by (subst passes_loop.simps) (simp add: run_passes_step add.commute)
qed

section \<open>The report log\<close>

lemma emit_Nil [simp]: "emit clk [] L = L"
  by (simp add: emit_def)

lemma emit_Cons: "emit clk ((f, as) # ms) L = emit clk ms (Log clk f as L)"
  by (simp add: emit_def)

lemma emit_append: "emit clk (ms @ ns) L = emit clk ns (emit clk ms L)"
  by (simp add: emit_def)

lemma Log_emit: "Log clk f as L = emit clk [(f, as)] L"
  by (simp add: emit_def)

lemma Log_flags [simp]: "silent (Log clk f as L) = silent L" "enabled (Log clk f as L) = enabled L"
  by (simp_all add: Log_def Let_def)

lemma emit_lines:
  "emit clk ms L =
     (if silent L \<and> \<not> enabled L then L
      else L \<lparr> ticks := ticks L + length ms,
               cout := (if \<not> silent L then cout L @ lines clk (ticks L) ms else cout L),
               fd := (if enabled L then fd L @ lines clk (ticks L) ms else fd L) \<rparr>)"
proof (induction ms arbitrary: L)
  case Nil
  show ?case by simp
next
  case (Cons m ms)
  obtain f as where m: "m = (f, as)" by (cases m)
  show ?case
    unfolding m emit_Cons Cons.IH
    by (simp add: Log_def Let_def)
qed

lemma messages_of_lines [simp]: "messages_of (lines clk k ms) = ms"
  by (induction clk k ms rule: lines.induct) (simp_all add: messages_of_def)

lemma digit_is_digit [simp]: "is_digit (digit n)"
  unfolding is_digit_def digit_def by (rule nth_mem) simp

lemma dec_small: "n < 10 \<Longrightarrow> dec n = [digit n]"
  by (subst dec.simps) simp

lemma dec_step: "10 \<le> n \<Longrightarrow> dec n = dec (n div 10) @ [digit n]"
  by (subst dec.simps) simp

lemma dec_4:
  assumes "1000 \<le> n" "n < 10000"
  shows "dec n = [digit (n div 1000), digit (n div 100), digit (n div 10), digit n]"
proof -
  have "dec (n div 1000) = [digit (n div 1000)]" using assms by (intro dec_small) simp
  moreover have "dec (n div 100) = dec (n div 1000) @ [digit (n div 100)]"
    using assms dec_step [of "n div 100"] by (simp add: div_mult2_eq [symmetric])
  moreover have "dec (n div 10) = dec (n div 100) @ [digit (n div 10)]"
    using assms dec_step [of "n div 10"] by (simp add: div_mult2_eq [symmetric])
  moreover have "dec n = dec (n div 10) @ [digit n]" using assms by (intro dec_step) simp
  ultimately show ?thesis by simp
qed

lemma dec2_2: "n < 100 \<Longrightarrow> dec2 n = [digit (n div 10), digit n]"
proof (cases "n < 10")
  case True
  then show ?thesis by (simp add: dec2_def dec_small digit_def)
next
  case False
  assume "n < 100"
  with False show ?thesis by (simp add: dec2_def dec_step dec_small)
qed

lemma strftime_iso:
  assumes "tm_ok t"
  shows "iso_shape (strftime ''%Y-%m-%d-%H-%M-%SZ'' t)"
proof -
  from assms have "1000 \<le> tm_year t + 1900" "tm_year t + 1900 < 10000" "tm_mon t + 1 < 100"
    "tm_mday t < 100" "tm_hour t < 100" "tm_min t < 100" "tm_sec t < 100"
    by (simp_all add: tm_ok_def)
  then show ?thesis
    by (simp add: dec_4 dec2_2 iso_shape_def)
qed

lemma lines_stamps:
  "(\<And>i. tm_ok (clk i)) \<Longrightarrow> list_all (\<lambda>l. iso_shape (stamp l)) (lines clk k ms)"
  by (induction clk k ms rule: lines.induct) (simp_all add: strftime_iso del: strftime.simps)

lemma cout_emit [simp]:
  "messages_of (cout (emit clk ms (session0 dw))) = (if Quite dw then [] else ms)"
  by (simp add: emit_lines session0_def) (simp add: messages_of_def)

lemma fd_emit [simp]:
  "messages_of (fd (emit clk ms (session0 dw))) = (if Reporting dw then ms else [])"
  by (simp add: emit_lines session0_def) (simp add: messages_of_def)

lemma stamps_emit:
  assumes "\<And>i. tm_ok (clk i)"
  shows "list_all (\<lambda>l. iso_shape (stamp l)) (cout (emit clk ms (session0 dw)) @ fd (emit clk ms (session0 dw)))"
  using lines_stamps [of clk 0 ms, OF assms]
  by (simp add: emit_lines session0_def)


section \<open>The session in closed form\<close>

lemma catalog_policy:
  assumes "p \<in> set wPolicies"
  shows "passes p = int (length (rules p))" and "list_all rule_fits (rules p)"
proof -
  show "passes p = int (length (rules p))"
    using assms by (auto simp: catalog_defs)
  show "list_all rule_fits (rules p)"
    using assms catalog_fits by (auto simp: list_all_iff)
qed

lemma rlog_pass_result:
  "rlog (pass_result E (rules pol ! i) sz (int i) s) = emit (clock E) (pass_messages pol i) (rlog s)"
  by (simp add: pass_result_def Let_def pass_messages_def emit_Cons)

lemma rlog_run_passes:
  "rlog (run_passes E pol sz k s) =
     emit (clock E) (concat (map (pass_messages pol) [k..<length (rules pol)])) (rlog s)"
proof (induction "length (rules pol) - k" arbitrary: k s)
  case 0
  then show ?case by (simp add: run_passes_done)
next
  case (Suc n)
  then have k: "k < length (rules pol)" by simp
  have "rlog (run_passes E pol sz (Suc k) (pass_result E (rules pol ! k) sz (int k) s)) =
     emit (clock E) (concat (map (pass_messages pol) [Suc k..<length (rules pol)]))
       (rlog (pass_result E (rules pol ! k) sz (int k) s))"
    using Suc.hyps(2) by (intro Suc.hyps(1)) simp
  then show ?case using k
    by (simp add: run_passes_step rlog_pass_result upt_conv_Cons emit_append)
qed

lemma main_zero:
  assumes "ValidPolicySel dw < N_POLICIES"
  shows "main E dw 0 k bytes ow0 =
     Some (Inr (E_FAILURE,
       emit (clock E) (session_messages (wPolicies ! ValidPolicySel dw) (DeviceName dw) 0) (session0 dw),
       None))"
  using assms by (simp add: main_def Let_def session_messages_def emit_Cons session0_def)

lemma main_eq:
  assumes "ValidPolicySel dw < N_POLICIES" "sz \<noteq> 0" "length ow0 = blockSize"
  shows "main E dw sz k bytes ow0 =
     Some (Inr (E_SUCCESS,
       emit (clock E) (session_messages (wPolicies ! ValidPolicySel dw) (DeviceName dw) sz) (session0 dw),
       Some (devfd (run_passes E (wPolicies ! ValidPolicySel dw) sz 0
          \<lparr> rlog = emit (clock E) (header (wPolicies ! ValidPolicySel dw) (DeviceName dw) sz) (session0 dw),
            devfd = ofs_open k bytes, owBlock = ow0, reads = 0, fills = 0 \<rparr>))))"
proof -
  let ?pol = "wPolicies ! ValidPolicySel dw"
  let ?s0 = "\<lparr> rlog = emit (clock E) (header ?pol (DeviceName dw) sz) (session0 dw),
            devfd = ofs_open k bytes, owBlock = ow0, reads = 0, fills = 0 \<rparr>"
  from assms(1) have mem: "?pol \<in> set wPolicies" by (simp add: N_POLICIES_def)
  have loop: "passes_loop E ?pol sz 0 ?s0 = Some (Inr (run_passes E ?pol sz 0 ?s0))"
    using passes_loop_eq [OF catalog_policy [OF mem], of ?s0 E sz 0] assms(3) by simp
  have hd: "session_messages ?pol (DeviceName dw) sz =
      header ?pol (DeviceName dw) sz @ concat (map (pass_messages ?pol) [0..<length (rules ?pol)])
        @ [(''DiskWiper session done'', []), (''----------------------'', [])]"
    using assms(2) by (simp add: session_messages_def header_def)
  have s0: "\<lparr> rlog = Log (clock E) ''Device/File Size: %lu'' [ArgLU sz]
       (Log (clock E) ''device: %s'' [ArgS (DeviceName dw)]
       (Log (clock E) ''Target device: %s'' [ArgS (DeviceName dw)]
       (Log (clock E) ''Passes: %d'' [ArgD (passes ?pol)]
       (Log (clock E) ''WipePolicy Selected: %s'' [ArgS (name ?pol)]
       (Log (clock E) ''DiskWiper session start'' []
         \<lparr> enabled = Reporting dw, silent = Quite dw, cout = [], fd = [], ticks = 0 \<rparr>))))),
       devfd = ofs_open k bytes, owBlock = ow0, reads = 0, fills = 0 \<rparr> = ?s0"
    by (simp add: header_def emit_Cons session0_def)
  show ?thesis
    unfolding main_def Let_def s0
    using assms(1,2) loop
    by (simp add: and_then_def hd emit_append rlog_run_passes emit_Cons)
qed

lemma tm_ok_new_year [simp]: "tm_ok new_year_2013"
  by (simp add: tm_ok_def new_year_2013_def)

lemma wPolicies_nth [simp]:
  "wPolicies ! 0 = FastPolicy" "wPolicies ! 1 = GostPolicy" "wPolicies ! 2 = DOD522022MPolicy"
  "wPolicies ! 3 = VsitrPolicy" "wPolicies ! 4 = PeterGutmannPolicy" "N_POLICIES = 5"
  "wPolicies ! Suc 0 = GostPolicy"
  by (simp_all add: wPolicies_def N_POLICIES_def)




lemma stamps_of_lines:
  "map stamp (lines clk k ms) = map (\<lambda>i. strftime ''%Y-%m-%d-%H-%M-%SZ'' (clk i)) [k..<k + length ms]"
proof (induction clk k ms rule: lines.induct)
  case (1 clk k)
  show ?case by simp
next
  case (2 clk k f as ms)
  have "[k..<k + length ((f, as) # ms)] = k # [Suc k..<Suc k + length ms]"
    using upt_conv_Cons [of k "Suc (k + length ms)"] by simp
  with 2 show ?case by (simp del: strftime.simps)
qed

lemma event_of_simps [simp]:
  "event_of (''DiskWiper session start'', as) = SessionStart"
  "event_of (''WipePolicy Selected: %s'', as) = PolicyName"
  "event_of (''Passes: %d'', as) = PassCount"
  "event_of (''Target device: %s'', as) = TargetIdentifier"
  "event_of (''device: %s'', as) = TargetIdentifier"
  "event_of (''Device/File Size: %lu'', as) = TargetSize"
  "event_of (''Invalid Disk/File Size'', as) = SizeInvalid"
  "event_of (''Step %d: start'', [ArgD i]) = PassStart i"
  "event_of (''Step %d: done'', [ArgD i]) = PassDone i"
  "event_of (''DiskWiper session done'', as) = SessionDone"
  "event_of (''DiskWiper session aborted'', as) = SessionAborted"
  "event_of (''Building overwrite block for step %d'', as) = Unlisted"
  "event_of (''Scheduling random overwrite block for step %d'', as) = Unlisted"
  "event_of (''----------------------'', as) = Unlisted"
  by (simp_all add: event_of_def step_of_def)

lemma events_header:
  "remdups_adj (filter (\<lambda>e. e \<noteq> Unlisted) (map event_of (header pol dev sz @ ms))) =
     [SessionStart, PolicyName, PassCount, TargetIdentifier]
     @ remdups_adj (TargetSize # filter (\<lambda>e. e \<noteq> Unlisted) (map event_of ms))"
  by (simp add: header_def)

lemma events_passes:
  "filter (\<lambda>e. e \<noteq> Unlisted) (map event_of (concat (map (pass_messages pol) [k..<n]))) =
     concat (map (\<lambda>i. [PassStart (int i), PassDone (int i)]) [k..<n])"
proof (induction "n - k" arbitrary: k)
  case 0
  then show ?case by simp
next
  case (Suc m)
  then have "k < n" "m = n - Suc k" by simp_all
  with Suc.hyps(1) [of "Suc k"] show ?case
    by (simp add: upt_conv_Cons pass_messages_def)
qed

lemma set_claimed_passes:
  "set (concat (map (\<lambda>i. [PassStart (int i), PassDone (int i)]) [0..<n])) =
     (\<lambda>i. PassStart (int i)) ` {0..<n} \<union> (\<lambda>i. PassDone (int i)) ` {0..<n}"
  by auto

lemma distinct_claimed_passes:
  "distinct (concat (map (\<lambda>i. [PassStart (int i), PassDone (int i)]) [0..<n]))"
proof (induction n)
  case 0
  show ?case by simp
next
  case (Suc n)
  then show ?case by (auto simp: set_claimed_passes)
qed

lemma distinct_claimed: "distinct (claimed_order n zero)"
  using distinct_claimed_passes [of n] by (auto simp: claimed_order_def set_claimed_passes)

lemma events_session:
  "remdups_adj (filter (\<lambda>e. e \<noteq> Unlisted) (map event_of (session_messages pol dev sz))) =
     claimed_order (length (rules pol)) (sz = 0)"
proof -
  let ?tail = "if sz = 0 then [(''Invalid Disk/File Size'', []), (''DiskWiper session aborted'', [])]
        else concat (map (pass_messages pol) [0..<length (rules pol)])
             @ [(''DiskWiper session done'', []), (''----------------------'', [])]"
  have sm: "session_messages pol dev sz = header pol dev sz @ ?tail"
    by (simp add: session_messages_def header_def)
  have tail: "TargetSize # filter (\<lambda>e. e \<noteq> Unlisted) (map event_of ?tail) =
      drop 4 (claimed_order (length (rules pol)) (sz = 0))"
    by (simp add: claimed_order_def events_passes)
  have "distinct (drop 4 (claimed_order (length (rules pol)) (sz = 0)))"
    by (rule distinct_drop) (rule distinct_claimed)
  then have "remdups_adj (drop 4 (claimed_order (length (rules pol)) (sz = 0))) =
      drop 4 (claimed_order (length (rules pol)) (sz = 0))"
    by (rule remdups_adj_distinct)
  then show ?thesis
    unfolding sm events_header tail by (simp add: claimed_order_def)
qed



lemma events_emit_cout:
  "events_of (cout (emit clk (session_messages pol dev sz) (session0 dw))) =
     (if Quite dw then [] else claimed_order (length (rules pol)) (sz = 0))"
  using events_session [of pol dev sz] cout_emit [of clk "session_messages pol dev sz" dw]
  by (simp add: events_of_def)

lemma events_emit_fd:
  "events_of (fd (emit clk (session_messages pol dev sz) (session0 dw))) =
     (if Reporting dw then claimed_order (length (rules pol)) (sz = 0) else [])"
  using events_session [of pol dev sz] fd_emit [of clk "session_messages pol dev sz" dw]
  by (simp add: events_of_def)

lemma length_lines [simp]: "length (lines clk k ms) = length ms"
  by (induction clk k ms rule: lines.induct) (simp_all del: strftime.simps)

lemma stamps_emit_cout:
  "map stamp (cout (emit clk ms (session0 dw))) =
     map (\<lambda>i. strftime ''%Y-%m-%d-%H-%M-%SZ'' (clk i)) [0..<length (cout (emit clk ms (session0 dw)))]"
  using stamps_of_lines [of clk 0 ms]
  by (simp add: emit_lines session0_def del: strftime.simps)

lemma stamps_emit_fd:
  "map stamp (fd (emit clk ms (session0 dw))) =
     map (\<lambda>i. strftime ''%Y-%m-%d-%H-%M-%SZ'' (clk i)) [0..<length (fd (emit clk ms (session0 dw)))]"
  using stamps_of_lines [of clk 0 ms]
  by (simp add: emit_lines session0_def del: strftime.simps)


section \<open>The write calls and the stream\<close>

lemma issued_write [simp]: "issued (ofs_write a bs f) = issued f @ [bs]"
  by (simp add: ofs_write_def Let_def)

lemma refill_devfd [simp]: "devfd (refill E rule s) = devfd s"
  by (simp add: refill_def)

lemma filled_devfd [simp]: "devfd (filled E rule s) = devfd s"
  by (simp add: filled_def)

lemma issued_cycle: "length (issued (devfd (cycle E rule n s))) = Suc (length (issued (devfd s)))"
  by (simp add: cycle_def Let_def)

lemma issued_cycles:
  "length (issued (devfd ((cycle E rule n ^^ m) s))) = length (issued (devfd s)) + m"
  by (induction m) (simp_all add: issued_cycle)

lemma issued_seekp [simp]: "issued (seekp p f) = issued f"
  by (simp add: seekp_def)

lemma issued_pass:
  "length (issued (devfd (pass_result E rule sz step s))) =
     length (issued (devfd s)) + (unat (sz div of_nat blockSize) - 1 + unat (sz mod of_nat blockSize))"
  by (simp add: pass_result_def Let_def issued_cycles)

lemma issued_run_passes:
  "length (issued (devfd (run_passes E pol sz k s))) =
     length (issued (devfd s)) +
     (length (rules pol) - k) * (unat (sz div of_nat blockSize) - 1 + unat (sz mod of_nat blockSize))"
proof (induction "length (rules pol) - k" arbitrary: k s)
  case 0
  then show ?case by (simp add: run_passes_done)
next
  case (Suc n)
  then have k: "k < length (rules pol)" by simp
  have n: "n = length (rules pol) - Suc k" using Suc.hyps(2) by simp
  show ?case
    using Suc.hyps(1) [OF n, of "pass_result E (rules pol ! k) sz (int k) s"] k Suc.hyps(2) [symmetric]
    by (simp add: run_passes_step issued_pass n [symmetric])
qed

lemma dead_write: "failbit f \<Longrightarrow> dead f (ofs_write a bs f)"
  by (simp add: dead_def ofs_write_def)

lemma dead_cycle: "failbit (devfd s) \<Longrightarrow> dead (devfd s) (devfd (cycle E rule n s))"
  by (simp add: cycle_def Let_def dead_write)

lemma dead_cycles: "failbit (devfd s) \<Longrightarrow> dead (devfd s) (devfd ((cycle E rule n ^^ m) s))"
proof (induction m)
  case 0 then show ?case by (simp add: dead_def)
next
  case (Suc m)
  then have d: "dead (devfd s) (devfd ((cycle E rule n ^^ m) s))" by simp
  then have "failbit (devfd ((cycle E rule n ^^ m) s))" by (simp add: dead_def)
  from dead_cycle [OF this, where n = n and E = E and rule = rule] d
  show ?case by (simp add: dead_def)
qed

lemma dead_pass: "failbit (devfd s) \<Longrightarrow> dead (devfd s) (devfd (pass_result E rule sz step s))"
proof -
  assume f: "failbit (devfd s)"
  let ?s3 = "s \<lparr> devfd := seekp 0 (devfd s),
                   rlog := Log (clock E) ''Step %d: start'' [ArgD step]
                     (Log (clock E)
                        (if random rule = 0 then ''Building overwrite block for step %d''
                         else ''Scheduling random overwrite block for step %d'')
                        [ArgD step] (rlog s)) \<rparr>"
  let ?s4 = "filled E rule ?s3"
  let ?s5 = "(cycle E rule blockSize ^^ (unat (sz div of_nat blockSize) - 1)) ?s4"
  let ?s6 = "(cycle E rule 1 ^^ unat (sz mod of_nat blockSize)) ?s5"
  have 4: "devfd ?s4 = devfd s" using f by (simp add: seekp_def)
  then have "failbit (devfd ?s4)" using f by simp
  from dead_cycles [OF this]
  have 5: "dead (devfd s) (devfd ?s5)" using 4 by simp
  then have "failbit (devfd ?s5)" by (simp add: dead_def)
  from dead_cycles [OF this, where n = 1 and m = "unat (sz mod of_nat blockSize)"] 5
  have "dead (devfd s) (devfd ?s6)" by (simp add: dead_def)
  then show ?thesis by (simp add: pass_result_def Let_def)
qed

lemma dead_run_passes:
  "failbit (devfd s) \<Longrightarrow> dead (devfd s) (devfd (run_passes E pol sz k s))"
proof (induction "length (rules pol) - k" arbitrary: k s)
  case 0
  then show ?case by (simp add: run_passes_done dead_def)
next
  case (Suc n)
  then have k: "k < length (rules pol)" by simp
  have n: "n = length (rules pol) - Suc k" using Suc.hyps(2) by simp
  let ?s = "pass_result E (rules pol ! k) sz (int k) s"
  have d: "dead (devfd s) (devfd ?s)" using Suc.prems by (rule dead_pass)
  then have "failbit (devfd ?s)" by (simp add: dead_def)
  from Suc.hyps(1) [OF n this] d show ?case using k
    by (simp add: run_passes_step dead_def)
qed

lemma put_put:
  "p \<le> length xs \<Longrightarrow> put (put xs p bs) (p + length bs) cs = put xs p (bs @ cs)"
  by (simp add: put_def min_def ac_simps)

lemma length_put: "p \<le> length xs \<Longrightarrow> p + length bs \<le> length (put xs p bs)"
  by (simp add: put_def)

lemma writes_good:
  assumes "\<And>j. length bs \<le> a j"
  shows "\<not> failbit f \<Longrightarrow> tellp f \<le> length (contents f) \<Longrightarrow>
    (ofs_write a bs ^^ m) f =
      f \<lparr> contents := put (contents f) (tellp f) (concat (replicate m bs)),
          tellp := tellp f + m * length bs,
          failbit := False,
          issued := issued f @ replicate m bs \<rparr>"
proof (induction m arbitrary: f)
  case 0
  then show ?case by (simp add: put_def)
next
  case (Suc m)
  let ?f = "ofs_write a bs f"
  have w: "?f = f \<lparr> contents := put (contents f) (tellp f) bs, tellp := tellp f + length bs,
      failbit := False, issued := issued f @ [bs] \<rparr>"
    using Suc.prems assms [of "length (issued f)"] by (simp add: ofs_write_def Let_def)
  have "\<not> failbit ?f" "tellp ?f \<le> length (contents ?f)"
    using Suc.prems by (simp_all add: w length_put)
  from Suc.IH [OF this] show ?case
    using Suc.prems by (simp add: funpow_swap1 w put_put replicate_app_Cons_same)
qed

lemma det_cycles:
  "random rule = 0 \<Longrightarrow>
   (cycle E rule n ^^ m) s = s \<lparr> devfd := (ofs_write (accept E) (take n (owBlock s)) ^^ m) (devfd s) \<rparr>"
  by (induction m) (simp_all add: cycle_def refill_def)

lemma rand_cycle:
  assumes "random rule \<noteq> 0" "blockSize \<le> length (random_dev E (reads s))" "n \<le> blockSize"
    "length (owBlock s) = blockSize"
  shows "reads (cycle E rule n s) = reads s + 1"
    and "issued (devfd (cycle E rule n s)) = issued (devfd s) @ [take n (random_dev E (reads s))]"
  using assms by (simp_all add: cycle_def Let_def refill_def)

lemma rand_cycles:
  assumes "random rule \<noteq> 0" "\<And>j. blockSize \<le> length (random_dev E j)" "n \<le> blockSize"
    "length (owBlock s) = blockSize"
  shows "reads ((cycle E rule n ^^ m) s) = reads s + m \<and>
     issued (devfd ((cycle E rule n ^^ m) s)) =
       issued (devfd s) @ map (\<lambda>j. take n (random_dev E (reads s + j))) [0..<m]"
proof (induction m)
  case 0
  show ?case by simp
next
  case (Suc m)
  let ?s = "(cycle E rule n ^^ m) s"
  have len: "length (owBlock ?s) = blockSize" using assms(4) by simp
  have c: "(cycle E rule n ^^ Suc m) s = cycle E rule n ?s" by simp
  show ?case
    unfolding c
    using rand_cycle [OF assms(1) assms(2) assms(3) len] Suc by simp
qed



lemma issued_writes: "issued ((ofs_write a bs ^^ m) f) = issued f @ replicate m bs"
  by (induction m) (simp_all add: replicate_append_same)

lemma concat_replicate_single: "concat (replicate n [x]) = replicate n x"
  by (induction n) simp_all

lemma length_tiles:
  "L dvd blockSize \<Longrightarrow> length P = L \<Longrightarrow> length (concat (replicate (blockSize div L) P)) = blockSize"
  by (simp add: length_concat sum_list_replicate)

lemma det_pass_good:
  assumes "random rule = 0" and "\<And>j. blockSize \<le> accept E j" and "\<not> failbit (devfd s)"
    and "B = concat (replicate (blockSize div unat (datalen rule)) (pattern rule))"
    and "length B = blockSize"
    and "nb = unat (sz div of_nat blockSize) - 1" and "r = unat (sz mod of_nat blockSize)"
  shows "devfd (pass_result E rule sz step s) =
     (devfd s) \<lparr> contents := put (contents (devfd s)) 0
                     (concat (replicate nb B) @ concat (replicate r (take 1 B))),
                 tellp := nb * blockSize + r,
                 failbit := False,
                 issued := issued (devfd s) @ replicate nb B @ replicate r (take 1 B) \<rparr>"
proof -
  let ?a = "accept E"
  let ?f0 = "seekp 0 (devfd s)"
  let ?f1 = "(ofs_write ?a B ^^ nb) ?f0"
  let ?f2 = "(ofs_write ?a (take 1 B) ^^ r) ?f1"
  have f0: "?f0 = (devfd s) \<lparr> tellp := 0 \<rparr>" using assms(3) by (simp add: seekp_def)
  have bs: "blockSize \<noteq> 0" by (simp add: blockSize_def)
  have f1: "?f1 = ?f0 \<lparr> contents := put (contents ?f0) (tellp ?f0) (concat (replicate nb B)),
          tellp := tellp ?f0 + nb * length B, failbit := False,
          issued := issued ?f0 @ replicate nb B \<rparr>"
    using assms(2,3,5) by (intro writes_good) (simp_all add: f0)
  have len1: "length (take 1 B) = 1" using assms(5) bs by simp
  have "length (take 1 B) \<le> ?a j" for j
    using assms(2) [of j] len1 bs by simp
  then have f2: "?f2 = ?f1 \<lparr> contents := put (contents ?f1) (tellp ?f1) (concat (replicate r (take 1 B))),
          tellp := tellp ?f1 + r * length (take 1 B), failbit := False,
          issued := issued ?f1 @ replicate r (take 1 B) \<rparr>"
  proof (rule writes_good)
    show "\<not> failbit ?f1" by (simp add: f1)
    show "tellp ?f1 \<le> length (contents ?f1)"
      unfolding f1
      using length_put [of 0 "contents (devfd s)" "concat (replicate nb B)"] assms(5)
      by (simp add: f0 length_concat sum_list_replicate)
  qed
  have pp: "put (put (contents (devfd s)) 0 (concat (replicate nb B))) (nb * blockSize)
        (concat (replicate r (take 1 B))) =
      put (contents (devfd s)) 0 (concat (replicate nb B) @ concat (replicate r (take 1 B)))"
    using put_put [of 0 "contents (devfd s)" "concat (replicate nb B)"] assms(5)
    by (simp add: length_concat sum_list_replicate)
  have "devfd (pass_result E rule sz step s) = ?f2"
    using assms(1,4,5,6,7)
    by (simp add: pass_result_def Let_def det_cycles filled_def)
  also have "?f2 = (devfd s) \<lparr> contents := put (contents (devfd s)) 0
                     (concat (replicate nb B) @ concat (replicate r (take 1 B))),
                 tellp := nb * blockSize + r,
                 failbit := False,
                 issued := issued (devfd s) @ replicate nb B @ replicate r (take 1 B) \<rparr>"
    unfolding f2 unfolding f1 unfolding f0 using assms(5) len1 pp by simp
  finally show ?thesis .
qed

lemma Fast_block:
  "concat (replicate (blockSize div unat (datalen (OWR (lit [0]) 1 0 0))) (pattern (OWR (lit [0]) 1 0 0)))
     = replicate blockSize 0"
  by (simp add: OWR_def lit_def pattern_def concat_replicate_single)

lemma run_Fast:
  "run_passes E FastPolicy sz 0 s = pass_result E (OWR (lit [0]) 1 0 0) sz 0 s"
  by (simp add: run_passes_def FastPolicy_def r_Fast_def)

lemma Fast_session:
  assumes "sz \<noteq> 0" and "nb = unat (sz div of_nat blockSize) - 1" and "r = unat (sz mod of_nat blockSize)"
  shows "\<exists>L. main env_ok (dw_example 0) sz BlockDevice bytes (replicate blockSize 0) =
     Some (Inr (E_SUCCESS, L,
       Some \<lparr> contents = put bytes 0 (replicate (nb * blockSize) 0 @ replicate r 0),
              tellp = nb * blockSize + r, failbit = False,
              issued = replicate nb (replicate blockSize 0) @ replicate r [0] \<rparr>))"
proof -
  have 1: "ValidPolicySel (dw_example 0) < N_POLICIES" by (simp add: dw_example_def)
  have 2: "length (replicate blockSize (0::byte)) = blockSize" by simp
  have t1: "min (Suc 0) blockSize = Suc 0" by (simp add: blockSize_def)
  have c: "concat (replicate nb (replicate blockSize (0::byte))) = replicate (nb * blockSize) 0"
    by (induction nb) (simp_all add: replicate_add)
  let ?s0 = "\<lparr> rlog = emit (clock env_ok) (header FastPolicy (DeviceName (dw_example 0)) sz) (session0 (dw_example 0)),
            devfd = ofs_open BlockDevice bytes, owBlock = replicate blockSize 0, reads = 0, fills = 0 \<rparr>"
  have "devfd (pass_result env_ok (OWR (lit [0]) 1 0 0) sz 0 ?s0) =
     (devfd ?s0) \<lparr> contents := put (contents (devfd ?s0)) 0
                     (concat (replicate nb (replicate blockSize 0)) @ concat (replicate r (take 1 (replicate blockSize 0)))),
                 tellp := nb * blockSize + r,
                 failbit := False,
                 issued := issued (devfd ?s0) @ replicate nb (replicate blockSize 0) @ replicate r (take 1 (replicate blockSize 0)) \<rparr>"
    using assms(2,3)
    by (intro det_pass_good) (simp_all add: Fast_block, simp_all add: OWR_def env_ok_def ofs_open_def)
  then show ?thesis
    unfolding main_eq [OF 1 assms(1) 2]
    by (simp add: dw_example_def run_Fast t1 c concat_replicate_single ofs_open_def)
qed


lemma DoD_messages:
  "session_messages DOD522022MPolicy ''/dev/disk2'' 1 =
        [ (''DiskWiper session start'', []),
          (''WipePolicy Selected: %s'', [ArgS ''US DOD 5220.22-M'']),
          (''Passes: %d'', [ArgD 3]),
          (''Target device: %s'', [ArgS ''/dev/disk2'']),
          (''device: %s'', [ArgS ''/dev/disk2'']),
          (''Device/File Size: %lu'', [ArgLU 1]),
          (''Building overwrite block for step %d'', [ArgD 0]),
          (''Step %d: start'', [ArgD 0]),
          (''Step %d: done'', [ArgD 0]),
          (''Building overwrite block for step %d'', [ArgD 1]),
          (''Step %d: start'', [ArgD 1]),
          (''Step %d: done'', [ArgD 1]),
          (''Scheduling random overwrite block for step %d'', [ArgD 2]),
          (''Step %d: start'', [ArgD 2]),
          (''Step %d: done'', [ArgD 2]),
          (''DiskWiper session done'', []),
          (''----------------------'', []) ]"
  by (simp add: session_messages_def pass_messages_def DOD522022MPolicy_def COUNT_PASSES_def
        r_UsDod5220_22_M_def OWR_def upt_rec [of 0] upt_rec [of "Suc 0"] upt_rec [of 2])

lemma first_write_refused:
  assumes "random rule = 0" and "rule_fits rule" and "length (owBlock s) = blockSize"
    and "\<not> failbit (devfd s)" and "accept E (length (issued (devfd s))) = 0"
    and "unat (sz div of_nat blockSize) - 1 = 0" and "unat (sz mod of_nat blockSize) = Suc n"
  shows "dead (seekp 0 (devfd s)) (devfd (pass_result E rule sz step s))"
proof -
  let ?s3 = "s \<lparr> devfd := seekp 0 (devfd s),
                   rlog := Log (clock E) ''Step %d: start'' [ArgD step]
                     (Log (clock E)
                        (if random rule = 0 then ''Building overwrite block for step %d''
                         else ''Scheduling random overwrite block for step %d'')
                        [ArgD step] (rlog s)) \<rparr>"
  let ?s4 = "filled E rule ?s3"
  let ?s5 = "cycle E rule 1 ?s4"
  have len: "length (owBlock ?s4) = blockSize" using assms(2,3) by (intro filled_length) simp_all
  have bs: "0 < blockSize" by (simp add: blockSize_def)
  have d5: "dead (seekp 0 (devfd s)) (devfd ?s5)"
    using assms(1,4,5) len bs
    by (simp add: cycle_def Let_def refill_def ofs_write_def dead_def seekp_def put_def)
  then have "failbit (devfd ?s5)" by (simp add: dead_def)
  from dead_cycles [OF this, where n = 1 and m = n and E = E and rule = rule] d5
  have "dead (seekp 0 (devfd s)) (devfd ((cycle E rule 1 ^^ n) ?s5))" by (simp add: dead_def)
  then show ?thesis
    using assms(6,7) by (simp add: pass_result_def Let_def funpow_swap1)
qed


lemma rand_counts:
  assumes "random rule \<noteq> 0"
  shows "reads ((cycle E rule n ^^ m) s) = reads s + m \<and> fills ((cycle E rule n ^^ m) s) = fills s + m"
  using assms by (induction m) (simp_all add: cycle_def Let_def refill_def)

lemma det_counts:
  assumes "random rule = 0"
  shows "reads ((cycle E rule n ^^ m) s) = reads s \<and> fills ((cycle E rule n ^^ m) s) = fills s"
  using assms by (simp add: det_cycles)

lemma dry_cycles:
  assumes "random rule \<noteq> 0" and "\<And>j. random_dev E j = []"
  shows "owBlock ((cycle E rule n ^^ m) s) = owBlock s \<and>
     issued (devfd ((cycle E rule n ^^ m) s)) = issued (devfd s) @ replicate m (take n (owBlock s))"
  using assms by (induction m) (simp_all add: cycle_def Let_def refill_def replicate_append_same)

lemma dry_pass:
  assumes "random rule \<noteq> 0" and "\<And>j. random_dev E j = []"
    and "nb = unat (sz div of_nat blockSize) - 1" and "r = unat (sz mod of_nat blockSize)"
  shows "owBlock (pass_result E rule sz step s) = owBlock s"
    and "issued (devfd (pass_result E rule sz step s)) =
      issued (devfd s) @ replicate nb (take blockSize (owBlock s)) @ replicate r (take 1 (owBlock s))"
  using assms(1,3,4) dry_cycles [OF assms(1,2)]
  by (simp_all add: pass_result_def Let_def filled_def refill_def assms(2))

lemma det_pass:
  assumes "random rule = 0"
    and "B = concat (replicate (blockSize div unat (datalen rule)) (pattern rule))"
    and "length B = blockSize"
    and "nb = unat (sz div of_nat blockSize) - 1" and "r = unat (sz mod of_nat blockSize)"
  shows "owBlock (pass_result E rule sz step s) = B"
    and "reads (pass_result E rule sz step s) = reads s"
    and "fills (pass_result E rule sz step s) = fills s + 1"
    and "issued (devfd (pass_result E rule sz step s)) =
      issued (devfd s) @ replicate nb B @ replicate r (take 1 B)"
  using assms
  by (simp_all add: pass_result_def Let_def filled_def det_cycles issued_writes)


lemma issued_open: "issued (ofs_open k bytes) = []"
  by (simp add: ofs_open_def)

lemma tiles_of_one_byte:
  "concat (replicate (blockSize div unat (datalen (OWR (lit [x]) 1 0 0))) (pattern (OWR (lit [x]) 1 0 0)))
     = replicate blockSize x"
  by (simp add: OWR_def lit_def pattern_def concat_replicate_single)


lemma replay_append: "replay a w f (xs @ ys) = replay a w (replay a w f xs) ys"
  by (induction xs arbitrary: f) simp_all

lemma issued_replay: "issued (replay a w f ws) = issued f @ ws"
  by (induction ws arbitrary: f) simp_all

lemma dead_replay: "failbit f \<Longrightarrow> dead f (replay a w f ws)"
proof (induction ws arbitrary: f)
  case Nil
  then show ?case by (simp add: dead_def)
next
  case (Cons bs ws)
  let ?g = "ofs_write a bs (if length (issued f) mod w = 0 then seekp 0 f else f)"
  have d: "dead f ?g" using Cons.prems by (simp add: seekp_def dead_write)
  then have "failbit ?g" by (simp add: dead_def)
  from Cons.IH [OF this] d show ?case by (simp add: dead_def)
qed

lemma short_write_fails:
  "a (length (issued f)) < length bs \<Longrightarrow> failbit (ofs_write a bs f)"
  by (simp add: ofs_write_def Let_def)

lemma replay_short:
  assumes "j < length ws" and "a (length (issued f) + j) < length (ws ! j)"
  shows "dead (replay a w f (take (Suc j) ws)) (replay a w f ws)"
proof -
  let ?g = "replay a w f (take j ws)"
  let ?h = "if length (issued ?g) mod w = 0 then seekp 0 ?g else ?g"
  have tk: "take (Suc j) ws = take j ws @ [ws ! j]"
    using assms(1) by (simp add: take_Suc_conv_app_nth)
  have lg: "length (issued ?h) = length (issued f) + j"
    using assms(1) by (simp add: issued_replay)
  have "failbit (ofs_write a (ws ! j) ?h)"
    using assms(2) lg by (intro short_write_fails) simp
  then have fb: "failbit (replay a w f (take (Suc j) ws))"
    unfolding tk replay_append by simp
  have "ws = take (Suc j) ws @ drop (Suc j) ws" by simp
  then have "replay a w f ws = replay a w (replay a w f (take (Suc j) ws)) (drop (Suc j) ws)"
    using replay_append [of a w f "take (Suc j) ws" "drop (Suc j) ws"] by simp
  with dead_replay [OF fb] show ?thesis by simp
qed

lemma replay_no_seek:
  "(\<And>t. t < length ws \<Longrightarrow> (length (issued f) + t) mod w \<noteq> 0) \<Longrightarrow>
   replay a w f ws = foldl (\<lambda>g bs. ofs_write a bs g) f ws"
proof (induction ws arbitrary: f)
  case Nil
  show ?case by simp
next
  case (Cons bs ws)
  from Cons.prems [of 0] have 0: "length (issued f) mod w \<noteq> 0" by simp
  have "replay a w (ofs_write a bs f) ws = foldl (\<lambda>g bs. ofs_write a bs g) (ofs_write a bs f) ws"
  proof (rule Cons.IH)
    fix t assume "t < length ws"
    with Cons.prems [of "Suc t"] show "(length (issued (ofs_write a bs f)) + t) mod w \<noteq> 0"
      by simp
  qed
  with 0 show ?case by simp
qed

lemma replay_pass:
  assumes "length (issued f) mod w = 0" and "length ws = w" and "0 < w"
  shows "replay a w f ws = foldl (\<lambda>g bs. ofs_write a bs g) (seekp 0 f) ws"
proof (cases ws)
  case Nil
  with assms show ?thesis by simp
next
  case (Cons bs ws')
  let ?g = "ofs_write a bs (seekp 0 f)"
  have "replay a w ?g ws' = foldl (\<lambda>g bs. ofs_write a bs g) ?g ws'"
  proof (rule replay_no_seek)
    fix t assume t: "t < length ws'"
    with assms(2) Cons have lt: "Suc t < w" by simp
    have "(length (issued f) + Suc t) mod w = Suc t mod w"
      using assms(1) mod_add_left_eq [of "length (issued f)" w "Suc t"] by simp
    with lt show "(length (issued ?g) + t) mod w \<noteq> 0" by simp
  qed
  with assms(1) Cons show ?thesis by simp
qed


lemma cycle_write:
  "devfd (cycle E rule n s) =
     ofs_write (accept E) (take n (owBlock (refill E rule s))) (devfd s)"
  by (simp add: cycle_def Let_def)

lemma cycles_writes:
  "\<exists>X. length X = m \<and>
       issued (devfd ((cycle E rule n ^^ m) s)) = issued (devfd s) @ X \<and>
       devfd ((cycle E rule n ^^ m) s) = foldl (\<lambda>g bs. ofs_write (accept E) bs g) (devfd s) X"
proof (induction m)
  case 0
  show ?case by simp
next
  case (Suc m)
  let ?s = "(cycle E rule n ^^ m) s"
  from Suc obtain X where X: "length X = m" "issued (devfd ?s) = issued (devfd s) @ X"
    "devfd ?s = foldl (\<lambda>g bs. ofs_write (accept E) bs g) (devfd s) X" by blast
  let ?bs = "take n (owBlock (refill E rule ?s))"
  have "length (X @ [?bs]) = Suc m" using X(1) by simp
  moreover have "issued (devfd ((cycle E rule n ^^ Suc m) s)) = issued (devfd s) @ X @ [?bs]"
    using X(2) by (simp add: cycle_write)
  moreover have "devfd ((cycle E rule n ^^ Suc m) s) =
      foldl (\<lambda>g bs. ofs_write (accept E) bs g) (devfd s) (X @ [?bs])"
    using X(3) by (simp add: cycle_write)
  ultimately show ?case by blast
qed

lemma pass_writes:
  "\<exists>X. length X = unat (sz div of_nat blockSize) - 1 + unat (sz mod of_nat blockSize) \<and>
       issued (devfd (pass_result E rule sz step s)) = issued (devfd s) @ X \<and>
       devfd (pass_result E rule sz step s) =
         foldl (\<lambda>g bs. ofs_write (accept E) bs g) (seekp 0 (devfd s)) X"
proof -
  let ?s3 = "s \<lparr> devfd := seekp 0 (devfd s),
                   rlog := Log (clock E) ''Step %d: start'' [ArgD step]
                     (Log (clock E)
                        (if random rule = 0 then ''Building overwrite block for step %d''
                         else ''Scheduling random overwrite block for step %d'')
                        [ArgD step] (rlog s)) \<rparr>"
  let ?s4 = "filled E rule ?s3"
  let ?nb = "unat (sz div of_nat blockSize) - 1" and ?r = "unat (sz mod of_nat blockSize)"
  let ?s5 = "(cycle E rule blockSize ^^ ?nb) ?s4"
  let ?s6 = "(cycle E rule 1 ^^ ?r) ?s5"
  have 4: "devfd ?s4 = seekp 0 (devfd s)" by simp
  from cycles_writes [of ?nb E rule blockSize ?s4] obtain X where
    X: "length X = ?nb" "issued (devfd ?s5) = issued (devfd s) @ X"
    "devfd ?s5 = foldl (\<lambda>g bs. ofs_write (accept E) bs g) (seekp 0 (devfd s)) X"
    unfolding 4 by auto
  from cycles_writes [of ?r E rule 1 ?s5] obtain Y where
    Y: "length Y = ?r" "issued (devfd ?s6) = issued (devfd ?s5) @ Y"
    "devfd ?s6 = foldl (\<lambda>g bs. ofs_write (accept E) bs g) (devfd ?s5) Y"
    by auto
  have "length (X @ Y) = ?nb + ?r" using X(1) Y(1) by simp
  moreover have "issued (devfd (pass_result E rule sz step s)) = issued (devfd s) @ X @ Y"
    using X(2) Y(2) by (simp add: pass_result_def Let_def)
  moreover have "devfd (pass_result E rule sz step s) =
      foldl (\<lambda>g bs. ofs_write (accept E) bs g) (seekp 0 (devfd s)) (X @ Y)"
    using X(3) Y(3) by (simp add: pass_result_def Let_def)
  ultimately show ?thesis by blast
qed

lemma run_replay:
  assumes "w = unat (sz div of_nat blockSize) - 1 + unat (sz mod of_nat blockSize)" and "0 < w"
  shows "length (issued (devfd s)) mod w = 0 \<Longrightarrow>
    \<exists>Y. issued (devfd (run_passes E pol sz k s)) = issued (devfd s) @ Y \<and>
        devfd (run_passes E pol sz k s) = replay (accept E) w (devfd s) Y"
proof (induction "length (rules pol) - k" arbitrary: k s)
  case 0
  then show ?case by (simp add: run_passes_done)
next
  case (Suc n)
  then have k: "k < length (rules pol)" and n: "n = length (rules pol) - Suc k" by simp_all
  let ?s1 = "pass_result E (rules pol ! k) sz (int k) s"
  from pass_writes [of sz E "rules pol ! k" "int k" s] obtain X where
    X: "length X = w" "issued (devfd ?s1) = issued (devfd s) @ X"
    "devfd ?s1 = foldl (\<lambda>g bs. ofs_write (accept E) bs g) (seekp 0 (devfd s)) X"
    unfolding assms(1) by auto
  have r1: "devfd ?s1 = replay (accept E) w (devfd s) X"
    using replay_pass [OF Suc.prems X(1) assms(2), of "accept E"] X(3) by simp
  have "length (issued (devfd ?s1)) mod w = 0"
    using Suc.prems X(1,2) by simp
  from Suc.hyps(1) [OF n this] obtain Y where
    Y: "issued (devfd (run_passes E pol sz (Suc k) ?s1)) = issued (devfd ?s1) @ Y"
    "devfd (run_passes E pol sz (Suc k) ?s1) = replay (accept E) w (devfd ?s1) Y" by blast
  have "issued (devfd (run_passes E pol sz k s)) = issued (devfd s) @ X @ Y"
    using k Y(1) X(2) by (simp add: run_passes_step)
  moreover have "devfd (run_passes E pol sz k s) = replay (accept E) w (devfd s) (X @ Y)"
    using k Y(2) r1 by (simp add: run_passes_step replay_append)
  ultimately show ?case by blast
qed

lemma run_no_write:
  assumes "unat (sz div of_nat blockSize) - 1 + unat (sz mod of_nat blockSize) = 0"
  shows "devfd s = ofs_open kd bytes \<Longrightarrow> devfd (run_passes E pol sz k s) = ofs_open kd bytes"
proof (induction "length (rules pol) - k" arbitrary: k s)
  case 0
  then show ?case by (simp add: run_passes_done)
next
  case (Suc n)
  then have k: "k < length (rules pol)" and n: "n = length (rules pol) - Suc k" by simp_all
  let ?s1 = "pass_result E (rules pol ! k) sz (int k) s"
  from pass_writes [of sz E "rules pol ! k" "int k" s] assms
  have "devfd ?s1 = seekp 0 (devfd s)" by auto
  then have "devfd ?s1 = ofs_open kd bytes"
    using Suc.prems by (simp add: seekp_def ofs_open_def)
  from Suc.hyps(1) [OF n this] show ?case using k by (simp add: run_passes_step)
qed

lemma session_replay:
  assumes "w = unat (sz div of_nat blockSize) - 1 + unat (sz mod of_nat blockSize)"
    and "devfd s = ofs_open kd bytes"
    and "f = devfd (run_passes E pol sz 0 s)"
  shows "f = replay (accept E) w (ofs_open kd bytes) (issued f)"
proof (cases "w = 0")
  case True
  with assms have "f = ofs_open kd bytes" using run_no_write [of sz s kd bytes E pol 0] by simp
  then show ?thesis by (simp add: ofs_open_def)
next
  case False
  then have w: "0 < w" by simp
  have "length (issued (devfd s)) mod w = 0" using assms(2) by (simp add: ofs_open_def)
  from run_replay [OF assms(1) w this, of E pol 0] obtain Y where
    "issued f = issued (devfd s) @ Y" "f = replay (accept E) w (devfd s) Y"
    using assms(3) by blast
  then show ?thesis using assms(2) by (simp add: ofs_open_def)
qed



section \<open>The policy tables\<close>

text \<open>
  Claim C6. For every policy of the catalog the stored pass count is the length of its rule
  sequence: the counts are 1, 2, 3, 7 and 35. Fast is one pass of the pattern 0x00;
  GOST P50739-95 is 0x00 then random; DoD 5220.22-M is 0x00, 0xFF, random; German VSITR
  is the seven fixed passes 0x00, 0xFF, 0x00, 0xFF, 0x00, 0xFF, 0xAA.
\<close>

theorem catalog_pass_counts:
  "map passes wPolicies = map (\<lambda>p. int (length (rules p))) wPolicies \<and>
   map passes wPolicies = [1, 2, 3, 7, 35] \<and>
   map name wPolicies = [''Fast'', ''Russian GOST P50739-95'', ''US DOD 5220.22-M'',
     ''German VSITR'', ''Peter Gutmann''] \<and>
   map pass_of (rules FastPolicy) = [Fixed [0x00]] \<and>
   map pass_of (rules GostPolicy) = [Fixed [0x00], Random] \<and>
   map pass_of (rules DOD522022MPolicy) = [Fixed [0x00], Fixed [0xFF], Random] \<and>
   map pass_of (rules VsitrPolicy) =
     [Fixed [0x00], Fixed [0xFF], Fixed [0x00], Fixed [0xFF], Fixed [0x00], Fixed [0xFF],
      Fixed [0xAA]]"
  by (simp add: catalog_defs rule_defs)

text \<open>
  Claim C2. The Gutmann table has 35 rules: 4 random, 27 fixed, 4 random. The first 24
  fixed rules are 0x55, 0xAA, the three rotations of 92 49 24, the sixteen bytes 0x00 to
  0xFF in steps of 0x11 and the three rotations of 92 49 24 again. Of the last three, which
  are to be the rotations of 6D B6 DB, the third is DB 92 49 in the table: it is not the
  DB 6D B6 that the comment beside it spells out in binary, and it is not a rotation of
  the rule before it.
\<close>

theorem Gutmann_pass_31:
  "length r_Gutmann = 35 \<and>
   map pass_of (take 4 r_Gutmann) = [Random, Random, Random, Random] \<and>
   map pass_of (drop 31 r_Gutmann) = [Random, Random, Random, Random] \<and>
   map pass_of (take 24 (drop 4 r_Gutmann)) =
     [Fixed [0x55], Fixed [0xAA],
      Fixed [0x92, 0x49, 0x24], Fixed [0x49, 0x24, 0x92], Fixed [0x24, 0x92, 0x49],
      Fixed [0x00], Fixed [0x11], Fixed [0x22], Fixed [0x33], Fixed [0x44], Fixed [0x55],
      Fixed [0x66], Fixed [0x77], Fixed [0x88], Fixed [0x99], Fixed [0xAA], Fixed [0xBB],
      Fixed [0xCC], Fixed [0xDD], Fixed [0xEE], Fixed [0xFF],
      Fixed [0x92, 0x49, 0x24], Fixed [0x49, 0x24, 0x92], Fixed [0x24, 0x92, 0x49]] \<and>
   map pass_of (take 3 (drop 28 r_Gutmann)) =
     [Fixed [0x6D, 0xB6, 0xDB], Fixed [0xB6, 0xDB, 0x6D], Fixed [0xDB, 0x92, 0x49]] \<and>
   comment_145 = [0xDB, 0x6D, 0xB6] \<and>
   pass_of (r_Gutmann ! 30) \<noteq> Fixed comment_145 \<and>
   pattern (r_Gutmann ! 30) \<noteq> rotate1 (pattern (r_Gutmann ! 29)) \<and>
   pattern (r_Gutmann ! 29) = rotate1 (pattern (r_Gutmann ! 28))"
  by (simp add: r_Gutmann_def rule_defs comment_145_def bits_def)

section \<open>The block filler\<close>

text \<open>
  Claim C5, as amended. For a rule that is not random, with a pattern of length \<open>L \<ge> 1\<close>
  and the block of \<^verbatim>\<open>blockSize\<close> bytes: when \<open>L\<close> divides \<^verbatim>\<open>blockSize\<close>, \<^verbatim>\<open>FillBlock\<close>
  stays inside the block and leaves in it, at every offset \<open>k\<close>, the byte \<open>k mod L\<close> of the
  pattern; when \<open>L\<close> does not divide \<^verbatim>\<open>blockSize\<close> the last tile is not cut short and
  \<^verbatim>\<open>FillBlock\<close> stores past the end of the block, first at offset \<^verbatim>\<open>blockSize\<close>.
\<close>

theorem FillBlock_fixed_rule:
  assumes "random rule = 0" and "data rule = Some xs"
    and "1 \<le> unat (datalen rule)" and "unat (datalen rule) \<le> length xs"
    and "length buf = blockSize"
  shows "if unat (datalen rule) dvd blockSize
         then \<exists>buf'. FillBlock buf rule src = Some (Inr buf') \<and> length buf' = blockSize \<and>
                (\<forall>k<blockSize. buf' ! k = pattern rule ! (k mod unat (datalen rule)))
         else FillBlock buf rule src = Some (Inl (StoreOutOfRange blockSize))"
proof (cases "unat (datalen rule) dvd blockSize")
  case False
  with assms show ?thesis by (simp add: FillBlock_overrun [OF assms(1,2) refl])
next
  case True
  let ?L = "unat (datalen rule)"
  let ?P = "take ?L xs"
  let ?buf = "concat (replicate (blockSize div ?L) ?P)"
  have lenP: "length ?P = ?L" using assms by simp
  have fb: "FillBlock buf rule src = Some (Inr ?buf)"
    using assms True by (simp add: FillBlock_fixed [OF assms(1,2) refl])
  have len: "length ?buf = blockSize"
    using True lenP by (simp add: length_concat sum_list_replicate)
  have "?buf ! k = pattern rule ! (k mod ?L)" if "k < blockSize" for k
  proof -
    from that True have "k < blockSize div ?L * length ?P" using lenP by simp
    with assms(3) lenP have "?buf ! k = ?P ! (k mod length ?P)"
      by (intro nth_concat_replicate) simp_all
    then show ?thesis using assms(2) lenP by (simp add: pattern_def)
  qed
  with fb len True show ?thesis by simp
qed

text \<open>The theorem at the pattern 92 49 24, whose length divides the block, and at a
  pattern of five bytes, whose length does not.\<close>

theorem FillBlock_fixed_rule_witness:
  "(\<exists>buf'. FillBlock (replicate blockSize 0) (OWR (lit [0x92, 0x49, 0x24]) 3 0 0) [] = Some (Inr buf')
      \<and> length buf' = blockSize \<and> buf' ! 4 = 0x49) \<and>
   FillBlock (replicate blockSize 0) (OWR (lit [1, 2, 3, 4, 5]) 5 0 0) [] =
     Some (Inl (StoreOutOfRange 98304))"
proof -
  have 3: "(3::nat) dvd blockSize" and 5: "\<not> (5::nat) dvd blockSize" and 4: "4 < blockSize"
    by (simp_all add: blockSize_def)
  have a: "\<exists>buf'. FillBlock (replicate blockSize 0) (OWR (lit [0x92, 0x49, 0x24]) 3 0 0) [] = Some (Inr buf')
      \<and> length buf' = blockSize \<and> buf' ! 4 = 0x49"
    using FillBlock_fixed_rule [of "OWR (lit [0x92, 0x49, 0x24]) 3 0 0" "[0x92, 0x49, 0x24, 0]"
        "replicate blockSize 0" "[]"] 3 4
    by (auto simp: OWR_def lit_def pattern_def)
  have b: "FillBlock (replicate blockSize 0) (OWR (lit [1, 2, 3, 4, 5]) 5 0 0) [] =
     Some (Inl (StoreOutOfRange 98304))"
    using FillBlock_fixed_rule [of "OWR (lit [1, 2, 3, 4, 5]) 5 0 0" "[1, 2, 3, 4, 5, 0]"
        "replicate blockSize 0" "[]"] 5
    by (simp add: OWR_def lit_def) (simp add: blockSize_def)
  from a b show ?thesis by simp
qed

text \<open>
  Claim C5 as it is written fails: with a pattern of five bytes the tiling is not truncated
  to fit, the block filler stores at offset 98304 of a block of 98304 bytes.
\<close>

theorem FillBlock_overruns_on_5_byte_pattern:
  "FillBlock (replicate blockSize 0) (OWR (lit [1, 2, 3, 4, 5]) 5 0 0) [] =
     Some (Inl (StoreOutOfRange 98304)) \<and> blockSize = 98304"
proof -
  have "\<not> (5::nat) dvd blockSize" by (simp add: blockSize_def)
  then have "FillBlock (replicate blockSize 0) (OWR (lit [1, 2, 3, 4, 5]) 5 0 0) [] =
     Some (Inl (StoreOutOfRange blockSize))"
    by (intro FillBlock_overrun [where xs = "[1, 2, 3, 4, 5, 0]"]) (simp_all add: OWR_def lit_def)
  then show ?thesis by (simp add: blockSize_def)
qed

text \<open>
  Claim C10. For every rule of the catalog \<^verbatim>\<open>FillBlock\<close> returns with the block filled and
  no store outside it. When the rule is random its \<^verbatim>\<open>data\<close> is the null pointer and the
  result does not depend on \<^verbatim>\<open>data\<close>; when it is not, the length of its pattern is 1 or 3,
  which divides \<^verbatim>\<open>blockSize\<close>, and the random device is not read.
\<close>

theorem FillBlock_on_catalog_rules:
  assumes "rule \<in> set (concat (map rules wPolicies))" and "length buf = blockSize"
  shows "(\<exists>buf'. FillBlock buf rule src = Some (Inr buf') \<and> length buf' = blockSize) \<and>
         (if random rule \<noteq> 0
          then data rule = None \<and>
               FillBlock buf (rule \<lparr> data := d \<rparr>) src = FillBlock buf rule src
          else (unat (datalen rule) = 1 \<or> unat (datalen rule) = 3) \<and>
               unat (datalen rule) dvd blockSize \<and>
               FillBlock buf rule src' = FillBlock buf rule src)"
proof -
  from assms(1) catalog_fits have fits: "rule_fits rule" by (auto simp: list_all_iff)
  have shape: "if random rule \<noteq> 0 then data rule = None
         else (unat (datalen rule) = 1 \<or> unat (datalen rule) = 3)"
    using assms(1) by (rule catalog_rule_shape)
  have dv: "unat (datalen rule) dvd blockSize" if "random rule = 0"
    using that shape blockSize_facts by auto
  show ?thesis
    using FillBlock_fits [OF fits assms(2), of src] shape dv
    by (auto simp: FillBlock_def)
qed

text \<open>The theorem at a random rule and at the fixed rule 24 92 49 of the Gutmann table.\<close>

theorem FillBlock_on_catalog_rules_witness:
  "(\<exists>buf'. FillBlock (replicate blockSize 0) (OWR None 0 1 0) [] = Some (Inr buf') \<and>
      length buf' = blockSize) \<and>
   FillBlock (replicate blockSize 0) (OWR (Some [7]) 0 1 0) [] =
     FillBlock (replicate blockSize 0) (OWR None 0 1 0) [] \<and>
   (\<exists>buf'. FillBlock (replicate blockSize 0) (OWR (lit [0x24, 0x92, 0x49]) 3 0 0) [] = Some (Inr buf') \<and>
      length buf' = blockSize) \<and>
   FillBlock (replicate blockSize 0) (OWR (lit [0x24, 0x92, 0x49]) 3 0 0) [1, 2] =
     FillBlock (replicate blockSize 0) (OWR (lit [0x24, 0x92, 0x49]) 3 0 0) []"
proof -
  have r: "OWR None 0 1 0 \<in> set (concat (map rules wPolicies))"
    by (simp add: catalog_defs)
  have f: "OWR (lit [0x24, 0x92, 0x49]) 3 0 0 \<in> set (concat (map rules wPolicies))"
    by (simp add: catalog_defs)
  have len: "length (replicate blockSize (0::byte)) = blockSize" by simp
  show ?thesis
    using FillBlock_on_catalog_rules [OF r len, of "[]" "Some [7]"]
      FillBlock_on_catalog_rules [OF f len, of "[]" None "[1, 2]"]
    by (simp add: OWR_def lit_def)
qed

section \<open>The session\<close>

text \<open>
  Claim C7. When the size of the target is 0, \<^verbatim>\<open>main\<close> logs the size, then
  \<^verbatim>\<open>Invalid Disk/File Size\<close> and \<^verbatim>\<open>DiskWiper session aborted\<close> (on \<^verbatim>\<open>std::cout\<close> unless
  quiet, on the report file when there is one), returns \<^verbatim>\<open>E_FAILURE\<close>, and has not
  opened the target: no pass starts and no write is made.
\<close>

theorem zero_size_aborts:
  assumes "ValidPolicySel dw < N_POLICIES"
  shows "\<exists>L. main E dw 0 k bytes ow0 = Some (Inr (E_FAILURE, L, None)) \<and>
     E_FAILURE = 1 \<and>
     messages_of (cout L) =
       (if Quite dw then []
        else [ (''DiskWiper session start'', []),
               (''WipePolicy Selected: %s'', [ArgS (name (wPolicies ! ValidPolicySel dw))]),
               (''Passes: %d'', [ArgD (passes (wPolicies ! ValidPolicySel dw))]),
               (''Target device: %s'', [ArgS (DeviceName dw)]),
               (''device: %s'', [ArgS (DeviceName dw)]),
               (''Device/File Size: %lu'', [ArgLU 0]),
               (''Invalid Disk/File Size'', []),
               (''DiskWiper session aborted'', []) ]) \<and>
     messages_of (fd L) =
       (if Reporting dw
        then [ (''DiskWiper session start'', []),
               (''WipePolicy Selected: %s'', [ArgS (name (wPolicies ! ValidPolicySel dw))]),
               (''Passes: %d'', [ArgD (passes (wPolicies ! ValidPolicySel dw))]),
               (''Target device: %s'', [ArgS (DeviceName dw)]),
               (''device: %s'', [ArgS (DeviceName dw)]),
               (''Device/File Size: %lu'', [ArgLU 0]),
               (''Invalid Disk/File Size'', []),
               (''DiskWiper session aborted'', []) ]
        else [])"
  by (simp add: main_zero [OF assms] session_messages_def E_FAILURE_def)

text \<open>The theorem at the Peter Gutmann policy.\<close>

theorem zero_size_aborts_witness:
  "\<exists>L. main env_ok (dw_example 4) 0 BlockDevice [] [] = Some (Inr (E_FAILURE, L, None)) \<and>
     messages_of (cout L) =
        [ (''DiskWiper session start'', []),
          (''WipePolicy Selected: %s'', [ArgS ''Peter Gutmann'']),
          (''Passes: %d'', [ArgD 35]),
          (''Target device: %s'', [ArgS ''/dev/disk2'']),
          (''device: %s'', [ArgS ''/dev/disk2'']),
          (''Device/File Size: %lu'', [ArgLU 0]),
          (''Invalid Disk/File Size'', []),
          (''DiskWiper session aborted'', []) ]"
proof -
  have "ValidPolicySel (dw_example 4) < N_POLICIES" by (simp add: dw_example_def)
  from zero_size_aborts [OF this, of env_ok BlockDevice "[]" "[]"]
  obtain L where "main env_ok (dw_example 4) 0 BlockDevice [] [] = Some (Inr (E_FAILURE, L, None))"
    and "messages_of (cout L) =
        [ (''DiskWiper session start'', []),
          (''WipePolicy Selected: %s'', [ArgS ''Peter Gutmann'']),
          (''Passes: %d'', [ArgD 35]),
          (''Target device: %s'', [ArgS ''/dev/disk2'']),
          (''device: %s'', [ArgS ''/dev/disk2'']),
          (''Device/File Size: %lu'', [ArgLU 0]),
          (''Invalid Disk/File Size'', []),
          (''DiskWiper session aborted'', []) ]"
    by (auto simp: dw_example_def PeterGutmannPolicy_def COUNT_PASSES_def r_Gutmann_def)
  then show ?thesis by blast
qed


text \<open>
  Claim C9. In every session the events that the log holds come in the fixed order:
  session start, policy name, pass count, target, size of the target, then for each pass
  in order pass start and pass done, and at the end session done; when the size is 0 the
  size is followed by the size found invalid and the abort. This is the order of the
  lines on \<^verbatim>\<open>std::cout\<close> unless the session is quiet, and of the lines of the report file
  when there is one. Every line carries the time that \<^verbatim>\<open>std::gmtime\<close> gives, UTC, put by
  the format \<^verbatim>\<open>%Y-%m-%d-%H-%M-%SZ\<close>: for a time that \<^verbatim>\<open>std::gmtime\<close> can give in a year of
  four digits this is the form \<^verbatim>\<open>YYYY-MM-DD-HH-MM-SSZ\<close>.
\<close>

theorem log_order:
  assumes "ValidPolicySel dw < N_POLICIES" and "length ow0 = blockSize"
  shows "\<exists>r L f. main E dw sz k bytes ow0 = Some (Inr (r, L, f)) \<and>
     events_of (cout L) =
       (if Quite dw then []
        else claimed_order (length (rules (wPolicies ! ValidPolicySel dw))) (sz = 0)) \<and>
     events_of (fd L) =
       (if Reporting dw
        then claimed_order (length (rules (wPolicies ! ValidPolicySel dw))) (sz = 0) else []) \<and>
     map stamp (cout L) =
       map (\<lambda>i. strftime ''%Y-%m-%d-%H-%M-%SZ'' (clock E i)) [0..<length (cout L)] \<and>
     map stamp (fd L) =
       map (\<lambda>i. strftime ''%Y-%m-%d-%H-%M-%SZ'' (clock E i)) [0..<length (fd L)] \<and>
     ((\<forall>i. tm_ok (clock E i)) \<longrightarrow> list_all (\<lambda>l. iso_shape (stamp l)) (cout L @ fd L))"
proof (cases "sz = 0")
  case True
  show ?thesis
    unfolding True main_zero [OF assms(1)]
    using stamps_emit [of "clock E"] events_emit_cout [of "clock E" _ _ 0 dw]
      events_emit_fd [of "clock E" _ _ 0 dw]
      stamps_emit_cout [of "clock E" _ dw] stamps_emit_fd [of "clock E" _ dw]
    by (simp del: strftime.simps)
next
  case False
  show ?thesis
    unfolding main_eq [OF assms(1) False assms(2)]
    using stamps_emit [of "clock E"] events_emit_cout [of "clock E" _ _ sz dw]
      events_emit_fd [of "clock E" _ _ sz dw] False
      stamps_emit_cout [of "clock E" _ dw] stamps_emit_fd [of "clock E" _ dw]
    by (simp del: strftime.simps)
qed

text \<open>The theorem at the GOST policy and a target of 5 bytes, with the clock at the first
  second of 2013.\<close>

theorem log_order_witness:
  "\<exists>r L f. main env_ok (dw_example 1) 5 BlockDevice [1, 2, 3, 4, 5] (replicate blockSize 0)
       = Some (Inr (r, L, f)) \<and>
     events_of (cout L) =
       [SessionStart, PolicyName, PassCount, TargetIdentifier, TargetSize,
        PassStart 0, PassDone 0, PassStart 1, PassDone 1, SessionDone] \<and>
     events_of (fd L) = events_of (cout L) \<and>
     set (map stamp (cout L)) = {''2013-01-01-00-00-00Z''} \<and>
     list_all (\<lambda>l. iso_shape (stamp l)) (cout L @ fd L)"
proof -
  have st: "strftime ''%Y-%m-%d-%H-%M-%SZ'' new_year_2013 = ''2013-01-01-00-00-00Z''"
    by (simp add: new_year_2013_def dec_4 dec2_2 digit_def)
  have "ValidPolicySel (dw_example 1) < N_POLICIES" "length (replicate blockSize (0::byte)) = blockSize"
    by (simp_all add: dw_example_def)
  from log_order [OF this, of env_ok 5 BlockDevice "[1, 2, 3, 4, 5]"]
  obtain r L f where
    m: "main env_ok (dw_example 1) 5 BlockDevice [1, 2, 3, 4, 5] (replicate blockSize 0)
       = Some (Inr (r, L, f))"
    and ec: "events_of (cout L) = claimed_order (length (rules GostPolicy)) False"
    and ef: "events_of (fd L) = claimed_order (length (rules GostPolicy)) False"
    and la: "list_all (\<lambda>l. iso_shape (stamp l)) (cout L @ fd L)"
    and ms: "map stamp (cout L) =
       map (\<lambda>i. strftime ''%Y-%m-%d-%H-%M-%SZ'' new_year_2013) [0..<length (cout L)]"
    by (auto simp: dw_example_def env_ok_def simp del: strftime.simps)
  have co: "claimed_order (length (rules GostPolicy)) False =
       [SessionStart, PolicyName, PassCount, TargetIdentifier, TargetSize,
        PassStart 0, PassDone 0, PassStart 1, PassDone 1, SessionDone]"
    by (simp add: claimed_order_def GostPolicy_def r_Gost_def upt_rec [of 0] upt_rec [of "Suc 0"])
  have e1: "events_of (cout L) =
       [SessionStart, PolicyName, PassCount, TargetIdentifier, TargetSize,
        PassStart 0, PassDone 0, PassStart 1, PassDone 1, SessionDone]"
    using ec co by simp
  have e2: "events_of (fd L) = events_of (cout L)" using ec ef by simp
  from e1 have "cout L \<noteq> []" by (auto simp: events_of_def messages_of_def)
  then have "{0..<length (cout L)} \<noteq> {}" by simp
  then have "set (map (\<lambda>i. ''2013-01-01-00-00-00Z'') [0..<length (cout L)]) = {''2013-01-01-00-00-00Z''}"
    by (simp add: image_constant_conv)
  then have ss: "set (map stamp (cout L)) = {''2013-01-01-00-00-00Z''}"
    unfolding ms st .
  from m e1 e2 ss la show ?thesis by blast
qed

text \<open>
  Claim C3, as amended. No write to the target is checked. Whatever the target takes of
  each write, all or part or nothing, the session does not abort: every pass of the
  policy runs and logs its start and its end, the log ends with
  \<^verbatim>\<open>DiskWiper session done\<close> and \<^verbatim>\<open>main\<close> returns \<^verbatim>\<open>E_SUCCESS\<close>. Nothing is retried: the
  number of \<^verbatim>\<open>write\<close> calls is that of a session without failure. Nothing is rolled back:
  the stream at the end is the opened stream with the \<^verbatim>\<open>write\<close> calls of the session
  made on it in their order, and when a write is short the stream has failed and the
  target holds what it held after that write, the bytes taken from it and from the
  writes before it, and nothing of the writes after it.
\<close>

theorem write_failures_go_unnoticed:
  assumes "ValidPolicySel dw < N_POLICIES" and "sz \<noteq> 0" and "length ow0 = blockSize"
  shows "\<exists>L f. main E dw sz k bytes ow0 = Some (Inr (E_SUCCESS, L, Some f)) \<and>
     E_SUCCESS = 0 \<and>
     messages_of (cout L) =
       (if Quite dw then []
        else session_messages (wPolicies ! ValidPolicySel dw) (DeviceName dw) sz) \<and>
     messages_of (fd L) =
       (if Reporting dw
        then session_messages (wPolicies ! ValidPolicySel dw) (DeviceName dw) sz else []) \<and>
     (let w = unat (sz div of_nat blockSize) - 1 + unat (sz mod of_nat blockSize)
      in length (issued f) = length (rules (wPolicies ! ValidPolicySel dw)) * w \<and>
         f = replay (accept E) w (ofs_open k bytes) (issued f) \<and>
         (\<forall>j<length (issued f). accept E j < length (issued f ! j) \<longrightarrow>
            failbit f \<and>
            contents f =
              contents (replay (accept E) w (ofs_open k bytes) (take (Suc j) (issued f)))))"
proof -
  define w where "w = unat (sz div of_nat blockSize) - 1 + unat (sz mod of_nat blockSize)"
  let ?pol = "wPolicies ! ValidPolicySel dw"
  let ?s0 = "\<lparr> rlog = emit (clock E) (header ?pol (DeviceName dw) sz) (session0 dw),
            devfd = ofs_open k bytes, owBlock = ow0, reads = 0, fills = 0 \<rparr>"
  define f where "f = devfd (run_passes E ?pol sz 0 ?s0)"
  have rp: "f = replay (accept E) w (ofs_open k bytes) (issued f)"
    using session_replay [OF w_def _ f_def] by simp
  have len: "length (issued f) = length (rules ?pol) * w"
    by (simp add: f_def w_def issued_run_passes issued_open)
  have short: "failbit f \<and>
      contents f = contents (replay (accept E) w (ofs_open k bytes) (take (Suc j) (issued f)))"
    if "j < length (issued f)" and "accept E j < length (issued f ! j)" for j
  proof -
    from that replay_short [of j "issued f" "accept E" "ofs_open k bytes" w]
    have "dead (replay (accept E) w (ofs_open k bytes) (take (Suc j) (issued f)))
        (replay (accept E) w (ofs_open k bytes) (issued f))"
      by (simp add: issued_open)
    then show ?thesis unfolding rp [symmetric] by (simp add: dead_def)
  qed
  show ?thesis
    unfolding main_eq [OF assms] f_def [symmetric] Let_def w_def [symmetric]
    using rp len short by (simp add: E_SUCCESS_def)
qed

text \<open>
  The theorem at the Fast policy over a block device of 196608 bytes that takes five
  bytes of each write: the one write of the session leaves five zeros in the target, the
  rest is as it was, and the session is logged as done.
\<close>

theorem write_failures_go_unnoticed_witness:
  "\<exists>L f. main env_short (dw_example 0) 196608 BlockDevice (replicate 196608 0xFF)
         (replicate blockSize 0)
       = Some (Inr (E_SUCCESS, L, Some f)) \<and>
     messages_of (cout L) =
        [ (''DiskWiper session start'', []),
          (''WipePolicy Selected: %s'', [ArgS ''Fast'']),
          (''Passes: %d'', [ArgD 1]),
          (''Target device: %s'', [ArgS ''/dev/disk2'']),
          (''device: %s'', [ArgS ''/dev/disk2'']),
          (''Device/File Size: %lu'', [ArgLU 196608]),
          (''Building overwrite block for step %d'', [ArgD 0]),
          (''Step %d: start'', [ArgD 0]),
          (''Step %d: done'', [ArgD 0]),
          (''DiskWiper session done'', []),
          (''----------------------'', []) ] \<and>
     issued f = [replicate blockSize 0] \<and>
     failbit f \<and>
     contents f = replicate 5 0 @ replicate 196603 0xFF"
proof -
  have 1: "ValidPolicySel (dw_example 0) < N_POLICIES" and 2: "(196608::uint) \<noteq> 0"
    and 3: "length (replicate blockSize (0::byte)) = blockSize"
    by (simp_all add: dw_example_def)
  have nb: "1 = unat ((196608::uint) div of_nat blockSize) - 1"
    and r: "0 = unat ((196608::uint) mod of_nat blockSize)"
    by (simp_all add: blockSize_def)
  have w: "unat ((196608::uint) div of_nat blockSize) - 1 + unat ((196608::uint) mod of_nat blockSize) = 1"
    using nb r by simp
  have pol: "wPolicies ! ValidPolicySel (dw_example 0) = FastPolicy"
    by (simp add: dw_example_def)
  let ?s0 = "\<lparr> rlog = emit (clock env_short)
               (header FastPolicy (DeviceName (dw_example 0)) 196608) (session0 (dw_example 0)),
            devfd = ofs_open BlockDevice (replicate 196608 0xFF),
            owBlock = replicate blockSize 0, reads = 0, fills = 0 \<rparr>"
  from write_failures_go_unnoticed [OF 1 2 3, of env_short BlockDevice "replicate 196608 0xFF"]
  obtain L f where
    m: "main env_short (dw_example 0) 196608 BlockDevice (replicate 196608 0xFF)
         (replicate blockSize 0) = Some (Inr (E_SUCCESS, L, Some f))"
    and ms: "messages_of (cout L) = session_messages FastPolicy ''/dev/disk2'' 196608"
    and short: "\<forall>j<length (issued f). accept env_short j < length (issued f ! j) \<longrightarrow>
            failbit f \<and>
            contents f = contents (replay (accept env_short) 1
               (ofs_open BlockDevice (replicate 196608 0xFF)) (take (Suc j) (issued f)))"
    unfolding w pol Let_def by (auto simp: dw_example_def)
  have "f = devfd (run_passes env_short FastPolicy 196608 0 ?s0)"
    using m unfolding main_eq [OF 1 2 3] pol by simp
  then have "issued f = issued (devfd (pass_result env_short (OWR (lit [0]) 1 0 0) 196608 0 ?s0))"
    by (simp add: run_Fast)
  also have "\<dots> = [replicate blockSize 0]"
    using det_pass(4) [OF _ tiles_of_one_byte [symmetric, where x = "0"] 3 nb r,
        where E = env_short and step = 0 and s = ?s0]
    by (simp add: OWR_def issued_open)
  finally have iss: "issued f = [replicate blockSize 0]" .
  have "accept env_short 0 < length (issued f ! 0)"
    by (simp add: iss env_short_def blockSize_def)
  with short iss have fb: "failbit f"
    and c: "contents f = contents (replay (accept env_short) 1
               (ofs_open BlockDevice (replicate 196608 0xFF)) [replicate blockSize 0])"
    by auto
  have c': "contents f = replicate 5 0 @ replicate 196603 0xFF"
    unfolding c
    by (simp add: ofs_open_def seekp_def ofs_write_def Let_def put_def env_short_def blockSize_def)
  have sm: "session_messages FastPolicy ''/dev/disk2'' 196608 =
        [ (''DiskWiper session start'', []),
          (''WipePolicy Selected: %s'', [ArgS ''Fast'']),
          (''Passes: %d'', [ArgD 1]),
          (''Target device: %s'', [ArgS ''/dev/disk2'']),
          (''device: %s'', [ArgS ''/dev/disk2'']),
          (''Device/File Size: %lu'', [ArgLU 196608]),
          (''Building overwrite block for step %d'', [ArgD 0]),
          (''Step %d: start'', [ArgD 0]),
          (''Step %d: done'', [ArgD 0]),
          (''DiskWiper session done'', []),
          (''----------------------'', []) ]"
    by (simp add: session_messages_def pass_messages_def FastPolicy_def COUNT_PASSES_def
        r_Fast_def OWR_def)
  from m ms [unfolded sm] iss fb c' show ?thesis by blast
qed

text \<open>
  Claim C3 as it is written fails: on a target that refuses the first write the stream
  has failed and the byte of the target is as it was, yet passes 1 and 2 start and end, no
  abort is logged, the session is logged as done and \<^verbatim>\<open>main\<close> returns \<^verbatim>\<open>E_SUCCESS\<close>.
\<close>

theorem failed_write_session_succeeds:
  "\<exists>L f. main env_failing (dw_example 2) 1 BlockDevice [0xFF] (replicate blockSize 0)
       = Some (Inr (E_SUCCESS, L, Some f)) \<and>
     failbit f \<and> contents f = [0xFF] \<and>
     map event_of (messages_of (cout L)) =
       [SessionStart, PolicyName, PassCount, TargetIdentifier, TargetIdentifier, TargetSize,
        Unlisted, PassStart 0, PassDone 0,
        Unlisted, PassStart 1, PassDone 1,
        Unlisted, PassStart 2, PassDone 2,
        SessionDone, Unlisted]"
proof -
  have 1: "ValidPolicySel (dw_example 2) < N_POLICIES" and 2: "(1::uint) \<noteq> 0"
    and 3: "length (replicate blockSize (0::byte)) = blockSize"
    by (simp_all add: dw_example_def)
  let ?s0 = "\<lparr> rlog = emit (clock env_failing)
               (header DOD522022MPolicy (DeviceName (dw_example 2)) 1) (session0 (dw_example 2)),
            devfd = ofs_open BlockDevice [0xFF], owBlock = replicate blockSize 0, reads = 0, fills = 0 \<rparr>"
  let ?rule = "rules DOD522022MPolicy ! 0"
  let ?s1 = "pass_result env_failing ?rule 1 0 ?s0"
  have fits: "random ?rule = 0" "rule_fits ?rule"
    by (simp_all add: DOD522022MPolicy_def r_UsDod5220_22_M_def OWR_def lit_def rule_fits_def
        blockSize_def)
  have d1: "dead (seekp 0 (devfd ?s0)) (devfd ?s1)"
    using fits
    by (intro first_write_refused [where n = 0])
       (simp_all add: ofs_open_def env_failing_def, simp_all add: blockSize_def)
  then have "failbit (devfd ?s1)" by (simp add: dead_def)
  from dead_run_passes [OF this, of env_failing DOD522022MPolicy 1 1] d1
  have "dead (ofs_open BlockDevice [0xFF]) (devfd (run_passes env_failing DOD522022MPolicy 1 1 ?s1))"
    by (simp add: dead_def seekp_def ofs_open_def)
  moreover have "run_passes env_failing DOD522022MPolicy 1 0 ?s0 =
      run_passes env_failing DOD522022MPolicy 1 1 ?s1"
    using run_passes_step [of 0 DOD522022MPolicy env_failing 1 ?s0]
    by (simp add: DOD522022MPolicy_def r_UsDod5220_22_M_def)
  ultimately have "dead (ofs_open BlockDevice [0xFF])
      (devfd (run_passes env_failing DOD522022MPolicy 1 0 ?s0))" by simp
  then show ?thesis
    unfolding main_eq [OF 1 2 3]
    by (simp add: dw_example_def DoD_messages dead_def ofs_open_def event_of_def step_of_def)
qed

section \<open>The passes over the target\<close>

text \<open>
  Claim C1, on the code. The loop of the full blocks starts at \<^verbatim>\<open>cs = 1\<close> and so makes one
  write less than \<open>size / blockSize\<close>. For a target of 100000 bytes and the Fast policy the
  session makes no write of a full block and 1696 writes of one byte; the put position
  ends at 1696, not at 100000, and the last 98304 bytes of the target are as they were.
\<close>

theorem one_block_short:
  "\<exists>L f. main env_ok (dw_example 0) 100000 BlockDevice (replicate 100000 0xFF) (replicate blockSize 0)
       = Some (Inr (E_SUCCESS, L, Some f)) \<and>
     issued f = replicate 1696 [0] \<and> tellp f = 1696 \<and>
     contents f = replicate 1696 0 @ replicate 98304 0xFF"
proof -
  have nb: "0 = unat ((100000::uint) div of_nat blockSize) - 1"
    and r: "1696 = unat ((100000::uint) mod of_nat blockSize)"
    by (simp_all add: blockSize_def)
  from Fast_session [OF _ nb r, of "replicate 100000 0xFF"]
  show ?thesis by (auto simp: put_def)
qed

text \<open>
  Claim C4, on the code. For a target of 98304 bytes, all 0xFF, the Fast policy makes no
  write at all: after the session every byte of the target is still 0xFF.
\<close>

theorem Fast_leaves_last_block:
  "\<exists>L f. main env_ok (dw_example 0) 98304 BlockDevice (replicate 98304 0xFF) (replicate blockSize 0)
       = Some (Inr (E_SUCCESS, L, Some f)) \<and>
     issued f = [] \<and> contents f = replicate 98304 0xFF \<and> contents f ! 0 \<noteq> 0"
proof -
  have nb: "0 = unat ((98304::uint) div of_nat blockSize) - 1"
    and r: "0 = unat ((98304::uint) mod of_nat blockSize)"
    by (simp_all add: blockSize_def)
  from Fast_session [OF _ nb r, of "replicate 98304 0xFF"]
  show ?thesis by (auto simp: put_def)
qed


text \<open>
  Claim C8, as amended. In a pass whose rule is random, \<^verbatim>\<open>FillBlock\<close> is called, and the
  random device read, once when the pass starts and once more before every write, of a
  full block or of one byte: nothing is kept from one write to the next. When every read
  of the random device delivers a full block, the \<open>j\<close>-th write of the pass puts out the
  first bytes of its own read. In a pass whose rule is not random \<^verbatim>\<open>FillBlock\<close> is
  called exactly once, the random device is not read, every write puts out the block of
  that fill or its first byte, and the block at the end of the pass is the block of that
  fill.
\<close>

theorem buffer_refilled_per_write:
  assumes "rule_at pol step = Inr rule" and "rule_fits rule" and "length (owBlock s) = blockSize"
  shows "\<exists>s'. wipe_pass E pol sz step s = Some (Inr s') \<and>
     (let nb = unat (sz div of_nat blockSize) - 1;
          r = unat (sz mod of_nat blockSize);
          B = concat (replicate (blockSize div unat (datalen rule)) (pattern rule))
      in if random rule \<noteq> 0
         then fills s' = fills s + 1 + nb + r \<and>
              reads s' = reads s + 1 + nb + r \<and>
              length (issued (devfd s')) = length (issued (devfd s)) + nb + r \<and>
              ((\<forall>j. blockSize \<le> length (random_dev E j)) \<longrightarrow>
               issued (devfd s') =
                 issued (devfd s)
                 @ map (\<lambda>j. take blockSize (random_dev E (reads s + 1 + j))) [0..<nb]
                 @ map (\<lambda>j. take 1 (random_dev E (reads s + 1 + nb + j))) [0..<r])
         else fills s' = fills s + 1 \<and> reads s' = reads s \<and> owBlock s' = B \<and>
              issued (devfd s') = issued (devfd s) @ replicate nb B @ replicate r (take 1 B))"
proof -
  define nb where "nb = unat (sz div of_nat blockSize) - 1"
  define r where "r = unat (sz mod of_nat blockSize)"
  define B where "B = concat (replicate (blockSize div unat (datalen rule)) (pattern rule))"
  let ?s3 = "s \<lparr> devfd := seekp 0 (devfd s),
                   rlog := Log (clock E) ''Step %d: start'' [ArgD step]
                     (Log (clock E)
                        (if random rule = 0 then ''Building overwrite block for step %d''
                         else ''Scheduling random overwrite block for step %d'')
                        [ArgD step] (rlog s)) \<rparr>"
  let ?s4 = "filled E rule ?s3"
  let ?s5 = "(cycle E rule blockSize ^^ nb) ?s4"
  let ?s6 = "(cycle E rule 1 ^^ r) ?s5"
  have wp: "wipe_pass E pol sz step s = Some (Inr (pass_result E rule sz step s))"
    using assms(1,2,3) by (rule wipe_pass_eq)
  have pr: "pass_result E rule sz step s =
      ?s6 \<lparr> rlog := Log (clock E) ''Step %d: done'' [ArgD step] (rlog ?s6) \<rparr>"
    by (simp add: pass_result_def Let_def nb_def r_def)
  have l4: "length (owBlock ?s4) = blockSize" using assms(2,3) by (intro filled_length) simp_all
  have l5: "length (owBlock ?s5) = blockSize" using l4 by (rule cycles_length)
  have one: "1 \<le> blockSize" by (simp add: blockSize_def)
  show ?thesis
  proof (cases "random rule = 0")
    case True
    have lB: "length B = blockSize" using l4 True by (simp add: filled_def B_def)
    from det_pass [OF True B_def lB nb_def r_def, where E = E and step = step and s = s]
    show ?thesis
      using True unfolding wp Let_def nb_def [symmetric] r_def [symmetric] B_def [symmetric]
      by simp
  next
    case False
    have 4: "reads ?s4 = reads s + 1" "fills ?s4 = fills s + 1"
      "issued (devfd ?s4) = issued (devfd s)"
      using False by (simp_all add: filled_def refill_def)
    from rand_counts [OF False, where E = E and n = blockSize and m = nb and s = ?s4]
    have 5: "reads ?s5 = reads s + 1 + nb" "fills ?s5 = fills s + 1 + nb" by (simp_all add: 4)
    from rand_counts [OF False, where E = E and n = 1 and m = r and s = ?s5]
    have 6: "reads ?s6 = reads s + 1 + nb + r" "fills ?s6 = fills s + 1 + nb + r"
      by (simp_all add: 5)
    have len: "length (issued (devfd ?s6)) = length (issued (devfd s)) + nb + r"
      by (simp add: issued_cycles 4)
    have content: "issued (devfd ?s6) = issued (devfd s)
                @ map (\<lambda>j. take blockSize (random_dev E (reads s + 1 + j))) [0..<nb]
                @ map (\<lambda>j. take 1 (random_dev E (reads s + 1 + nb + j))) [0..<r]"
      if dev: "\<forall>j. blockSize \<le> length (random_dev E j)"
    proof -
      from dev have d: "\<And>j. blockSize \<le> length (random_dev E j)" by simp
      from rand_cycles [OF False d _ l4, of blockSize nb]
      have i5: "issued (devfd ?s5) = issued (devfd s) @
         map (\<lambda>j. take blockSize (random_dev E (reads s + 1 + j))) [0..<nb]"
        by (simp add: 4)
      from rand_cycles [OF False d one l5, of r]
      show ?thesis by (simp add: 5 i5)
    qed
    show ?thesis
      using False 6 len content
      unfolding wp pr Let_def nb_def [symmetric] r_def [symmetric] B_def [symmetric]
      by simp
  qed
qed


text \<open>
  The theorem at the two passes of the GOST policy: the random pass over a size of 3 bytes
  and the pass of zeros over a size of 2 bytes.
\<close>

theorem buffer_refilled_per_write_witness:
  "(\<exists>s'. wipe_pass env_ok GostPolicy 3 1 session_example = Some (Inr s') \<and>
      fills s' = 4 \<and> reads s' = 4 \<and> issued (devfd s') = [[1], [2], [3]]) \<and>
   (\<exists>s'. wipe_pass env_ok GostPolicy 2 0 session_example = Some (Inr s') \<and>
      fills s' = 1 \<and> reads s' = 0 \<and> owBlock s' = replicate blockSize 0 \<and>
      issued (devfd s') = [[0], [0]])"
proof -
  have len: "length (owBlock session_example) = blockSize" by (simp add: session_example_def)
  have r1: "rule_at GostPolicy 1 = Inr (OWR None 0 1 0)" "rule_fits (OWR None 0 1 0)"
    and r0: "rule_at GostPolicy 0 = Inr (OWR (lit [0]) 1 0 0)" "rule_fits (OWR (lit [0]) 1 0 0)"
    by (simp_all add: rule_at_def GostPolicy_def r_Gost_def rule_fits_def OWR_def lit_def
        blockSize_def)
  have dev: "\<forall>j. blockSize \<le> length (random_dev env_ok j)"
    by (simp add: env_ok_def)
  have n3: "unat ((3::uint) div of_nat blockSize) - 1 = 0" "unat ((3::uint) mod of_nat blockSize) = 3"
    and n2: "unat ((2::uint) div of_nat blockSize) - 1 = 0" "unat ((2::uint) mod of_nat blockSize) = 2"
    by (simp_all add: blockSize_def)
  have t1: "min blockSize (Suc 0) = Suc 0" and t2: "min (Suc 0) blockSize = Suc 0"
    by (simp_all add: blockSize_def)
  have a: "\<exists>s'. wipe_pass env_ok GostPolicy 3 1 session_example = Some (Inr s') \<and>
      fills s' = 4 \<and> reads s' = 4 \<and> issued (devfd s') = [[1], [2], [3]]"
  proof -
    from buffer_refilled_per_write [OF r1 len, of env_ok 3] n3 t1 t2 dev
    obtain s' where "wipe_pass env_ok GostPolicy 3 1 session_example = Some (Inr s')"
      and "fills s' = 4" and "reads s' = 4" and "issued (devfd s') = [[1], [2], [3]]"
      by (auto simp: Let_def OWR_def session_example_def ofs_open_def env_ok_def eval_nat_numeral)
    then show ?thesis by blast
  qed
  have b: "\<exists>s'. wipe_pass env_ok GostPolicy 2 0 session_example = Some (Inr s') \<and>
      fills s' = 1 \<and> reads s' = 0 \<and> owBlock s' = replicate blockSize 0 \<and>
      issued (devfd s') = [[0], [0]]"
  proof -
    from buffer_refilled_per_write [OF r0 len, of env_ok 2] n2 t1 t2 Fast_block
    obtain s' where "wipe_pass env_ok GostPolicy 2 0 session_example = Some (Inr s')"
      and "fills s' = 1" and "reads s' = 0" and "owBlock s' = replicate blockSize 0"
      and "issued (devfd s') = [[0], [0]]"
      by (auto simp: Let_def OWR_def session_example_def ofs_open_def eval_nat_numeral)
    then show ?thesis by blast
  qed
  from a b show ?thesis by simp
qed

text \<open>
  Claim C8 as it is written fails: the read of the random device is not checked. With a
  random device that delivers nothing, the random pass of the DoD policy over a size of 3
  bytes writes 0xFF three times, the block that the pass before it has left.
\<close>

theorem random_pass_writes_stale_block:
  "\<exists>L f. main env_dry (dw_example 2) 3 BlockDevice [9, 9, 9] (replicate blockSize 0)
       = Some (Inr (E_SUCCESS, L, Some f)) \<and>
     issued f = [[0], [0], [0], [0xFF], [0xFF], [0xFF], [0xFF], [0xFF], [0xFF]]"
proof -
  have 1: "ValidPolicySel (dw_example 2) < N_POLICIES" and 2: "(3::uint) \<noteq> 0"
    and 3: "length (replicate blockSize (0::byte)) = blockSize"
    by (simp_all add: dw_example_def)
  have nb: "0 = unat ((3::uint) div of_nat blockSize) - 1"
    and r: "3 = unat ((3::uint) mod of_nat blockSize)"
    by (simp_all add: blockSize_def)
  have t1: "min (Suc 0) blockSize = Suc 0" by (simp add: blockSize_def)
  let ?s0 = "\<lparr> rlog = emit (clock env_dry)
               (header DOD522022MPolicy (DeviceName (dw_example 2)) 3) (session0 (dw_example 2)),
            devfd = ofs_open BlockDevice [9, 9, 9], owBlock = replicate blockSize 0, reads = 0,
            fills = 0 \<rparr>"
  let ?r0 = "OWR (lit [0]) 1 0 0" and ?r1 = "OWR (lit [0xFF]) 1 0 0" and ?r2 = "OWR None 0 1 0"
  let ?s1 = "pass_result env_dry ?r0 3 0 ?s0"
  let ?s2 = "pass_result env_dry ?r1 3 1 ?s1"
  let ?s3 = "pass_result env_dry ?r2 3 2 ?s2"
  have run: "run_passes env_dry DOD522022MPolicy 3 0 ?s0 = ?s3"
    by (simp add: run_passes_def DOD522022MPolicy_def r_UsDod5220_22_M_def
        upt_rec [of 0] upt_rec [of "Suc 0"] upt_rec [of 2])
  have rnd: "random ?r0 = 0" "random ?r1 = 0" "random ?r2 \<noteq> 0" by (simp_all add: OWR_def)
  have lenx: "length (replicate blockSize x) = blockSize" for x :: byte by simp
  have dry: "\<And>j. random_dev env_dry j = []" by (simp add: env_dry_def)
  have i1: "issued (devfd ?s1) = [[0], [0], [0]]"
    using det_pass(4) [OF rnd(1) tiles_of_one_byte [symmetric, where x = "0"] lenx nb r,
        where E = env_dry and step = 0 and s = ?s0]
    by (simp add: issued_open t1 numeral_3_eq_3)
  have o2: "owBlock ?s2 = replicate blockSize 0xFF"
    using det_pass(1) [OF rnd(2) tiles_of_one_byte [symmetric, where x = "0xFF"] lenx nb r,
        where E = env_dry and step = 1 and s = ?s1]
    by simp
  have i2: "issued (devfd ?s2) = [[0], [0], [0], [0xFF], [0xFF], [0xFF]]"
    using det_pass(4) [OF rnd(2) tiles_of_one_byte [symmetric, where x = "0xFF"] lenx nb r,
        where E = env_dry and step = 1 and s = ?s1]
    by (simp add: i1 t1 numeral_3_eq_3)
  have i3: "issued (devfd ?s3) = [[0], [0], [0], [0xFF], [0xFF], [0xFF], [0xFF], [0xFF], [0xFF]]"
    using dry_pass(2) [OF rnd(3) dry nb r, where step = 2 and s = ?s2]
    by (simp add: i2 o2 t1 numeral_3_eq_3)
  have pol: "wPolicies ! ValidPolicySel (dw_example 2) = DOD522022MPolicy"
    by (simp add: dw_example_def)
  show ?thesis
    unfolding main_eq [OF 1 2 3] pol run using i3 by simp
qed

end
